theory Spec2Isabelle
  imports Complex_Main "HOL-Library.Multiset"
begin

section \<open>Remote calls and the retrying executor\<close>

text \<open>
  A rejected remote call carries a JavaScript error object. The script reads two of its
  properties: \<open>error.status\<close> (absent on errors that are not HTTP responses) and
  \<open>error.message\<close>.
\<close>

record api_error =
  status :: "int option"
  message :: string

datatype 'a response = Resolved 'a | Rejected api_error

text \<open>
  What one run of \<open>executeWithRateLimit\<close> does besides returning: it awaits a token of
  the rate limiter, invokes the call, and sleeps (milliseconds) before a retry.
\<close>

datatype effect = AcquireToken | ApiCall | Backoff nat

text \<open>
  An async function ends by returning a value, by throwing, or (when the \<open>for\<close> loop of
  \<open>executeWithRateLimit\<close> runs out without entering its body) by falling off its end, which
  resolves to \<open>undefined\<close>.
\<close>

datatype 'a completion = Returned 'a | Threw api_error | ReturnedUndefined

text \<open>
  The loop \<open>for (let attempt = 1; attempt <= maxRetries; attempt++)\<close> of
  \<open>executeWithRateLimit\<close>, from a given value of \<open>attempt\<close>. The remote call is a function
  of the attempt number: \<open>apiCall k\<close> is how the \<open>k\<close>-th invocation settles.
\<close>

function attempts :: "(nat \<Rightarrow> 'a response) \<Rightarrow> nat \<Rightarrow> nat \<Rightarrow> effect list \<times> 'a completion" where
  "attempts apiCall maxRetries attempt =
     (if attempt \<le> maxRetries then
        (case apiCall attempt of
           Resolved v \<Rightarrow> ([AcquireToken, ApiCall], Returned v)
         | Rejected err \<Rightarrow>
             if status err = Some 429 \<and> attempt < maxRetries then
               apfst (\<lambda>es. [AcquireToken, ApiCall, Backoff (2 ^ attempt * 1000)] @ es)
                 (attempts apiCall maxRetries (attempt + 1))
             else ([AcquireToken, ApiCall], Threw err))
      else ([], ReturnedUndefined))"
  by pat_completeness auto
termination
  by (relation "measure (\<lambda>(apiCall, maxRetries, attempt). maxRetries + 1 - attempt)") auto

definition executeWithRateLimit :: "(nat \<Rightarrow> 'a response) \<Rightarrow> nat \<Rightarrow> effect list \<times> 'a completion" where
  "executeWithRateLimit apiCall maxRetries = attempts apiCall maxRetries 1"

text \<open>The sleeps of a run, in order.\<close>

fun backoffs :: "effect list \<Rightarrow> nat list" where
  "backoffs [] = []"
| "backoffs (Backoff ms # es) = ms # backoffs es"
| "backoffs (e # es) = backoffs es"

definition rate_limited :: api_error where
  "rate_limited = \<lparr>status = Some 429, message = ''Too Many Requests''\<rparr>"

declare attempts.simps [simp del]

section \<open>The token bucket rate limiter\<close>

text \<open>
  The class \<open>TokenBucketRateLimiter\<close>. Its numeric fields are JavaScript numbers; they are
  modelled as real numbers (the rounding of IEEE doubles is not modelled). \<open>lastRefill\<close> is
  a reading of \<open>Date.now()\<close>, an integer count of milliseconds.
\<close>

record TokenBucketRateLimiter =
  capacity :: real
  tokens :: real
  refillRate :: real
  lastRefill :: int

definition new_TokenBucketRateLimiter :: "real \<Rightarrow> int \<Rightarrow> TokenBucketRateLimiter" where
  "new_TokenBucketRateLimiter maxRequestsPerSecond now =
     \<lparr>capacity = maxRequestsPerSecond, tokens = maxRequestsPerSecond,
      refillRate = maxRequestsPerSecond, lastRefill = now\<rparr>"

text \<open>\<open>refillTokens()\<close>, with the value \<open>now\<close> that its call of \<open>Date.now()\<close> reads.\<close>

definition refillTokens :: "int \<Rightarrow> TokenBucketRateLimiter \<Rightarrow> TokenBucketRateLimiter" where
  "refillTokens now b =
     (let timePassed = real_of_int (now - lastRefill b) / 1000;
          tokensToAdd = timePassed * refillRate b
      in b\<lparr>tokens := min (capacity b) (tokens b + tokensToAdd), lastRefill := now\<rparr>)"

text \<open>
  One run of the closure \<open>tryAcquire\<close>: either the token is granted (the promise resolves)
  or the closure is scheduled again after \<open>Math.ceil(1000 / refillRate)\<close> milliseconds.
  JavaScript's \<open>1000 / 0\<close> is \<open>Infinity\<close>, written \<open>None\<close> here.
\<close>

datatype acquisition = Granted | RetryAfter "int option"

definition tryAcquire :: "int \<Rightarrow> TokenBucketRateLimiter \<Rightarrow> TokenBucketRateLimiter \<times> acquisition" where
  "tryAcquire now b =
     (let b' = refillTokens now b in
      if tokens b' \<ge> 1 then (b'\<lparr>tokens := tokens b' - 1\<rparr>, Granted)
      else (b', RetryAfter (if refillRate b' = 0 then None
                            else Some \<lceil>1000 / refillRate b'\<rceil>)))"

text \<open>
  \<open>acquireToken()\<close>: the polling loop of one caller. The list holds the clock readings of
  its successive runs of \<open>tryAcquire\<close>; the result says whether the promise has resolved
  within them.
\<close>

fun acquireToken :: "int list \<Rightarrow> TokenBucketRateLimiter \<Rightarrow> TokenBucketRateLimiter \<times> bool" where
  "acquireToken [] b = (b, False)"
| "acquireToken (now # later) b =
     (case tryAcquire now b of
        (b', Granted) \<Rightarrow> (b', True)
      | (b', RetryAfter w) \<Rightarrow> acquireToken later b')"

text \<open>\<open>getAvailableTokens()\<close>.\<close>

definition getAvailableTokens :: "int \<Rightarrow> TokenBucketRateLimiter \<Rightarrow> TokenBucketRateLimiter \<times> int" where
  "getAvailableTokens now b = (let b' = refillTokens now b in (b', \<lfloor>tokens b'\<rfloor>))"

text \<open>
  The limiter is shared by all tasks, which run interleaved on one thread: its history is a
  sequence of calls of its methods, each with the clock readings it makes.
\<close>

datatype limiter_call = CallRefillTokens int | CallTryAcquire int | CallAcquireToken "int list"
  | CallGetAvailableTokens int

fun clock_readings :: "limiter_call \<Rightarrow> int list" where
  "clock_readings (CallRefillTokens now) = [now]"
| "clock_readings (CallTryAcquire now) = [now]"
| "clock_readings (CallAcquireToken polls) = polls"
| "clock_readings (CallGetAvailableTokens now) = [now]"

fun perform :: "limiter_call \<Rightarrow> TokenBucketRateLimiter \<Rightarrow> TokenBucketRateLimiter" where
  "perform (CallRefillTokens now) b = refillTokens now b"
| "perform (CallTryAcquire now) b = fst (tryAcquire now b)"
| "perform (CallAcquireToken polls) b = fst (acquireToken polls b)"
| "perform (CallGetAvailableTokens now) b = fst (getAvailableTokens now b)"

fun performs :: "limiter_call list \<Rightarrow> TokenBucketRateLimiter \<Rightarrow> TokenBucketRateLimiter" where
  "performs [] b = b"
| "performs (c # cs) b = performs cs (perform c b)"

definition bucket_ok :: "TokenBucketRateLimiter \<Rightarrow> bool" where
  "bucket_ok b = (0 \<le> tokens b \<and> tokens b \<le> capacity b)"


section \<open>Numbers, strings and dates of the platform\<close>

text \<open>
  The JavaScript numbers the date code handles are integers or \<open>NaN\<close>. The time value of a
  \<open>Date\<close> object is such a number: milliseconds since 1970-01-01T00:00:00Z, or \<open>NaN\<close> for
  an invalid date. (The platform keeps time values within 8.64e15 of zero; the model does not
  need the bound.) The functions below are those of the language standard: the proleptic
  Gregorian calendar in UTC.
\<close>

datatype number = NaN | Number int

definition msPerDay :: int where
  "msPerDay = 86400000"

definition Day :: "int \<Rightarrow> int" where
  "Day t = t div msPerDay"

definition DaysInYear :: "int \<Rightarrow> int" where
  "DaysInYear y =
     (if y mod 4 \<noteq> 0 then 365
      else if y mod 100 \<noteq> 0 then 366
      else if y mod 400 \<noteq> 0 then 365
      else 366)"

definition DayFromYear :: "int \<Rightarrow> int" where
  "DayFromYear y =
     365 * (y - 1970) + (y - 1969) div 4 - (y - 1901) div 100 + (y - 1601) div 400"

text \<open>
  The year that holds a day, and the day's position in it: from day \<open>d\<close> counted from the
  start of year \<open>y\<close>, walk year by year until \<open>0 \<le> d < DaysInYear y\<close>.
\<close>

function year_from :: "int \<Rightarrow> int \<Rightarrow> int \<times> int" where
  "year_from y d =
     (if d < 0 then year_from (y - 1) (d + DaysInYear (y - 1))
      else if DaysInYear y \<le> d then year_from (y + 1) (d - DaysInYear y)
      else (y, d))"
  by pat_completeness auto
termination
  by (relation "measures [\<lambda>(y, d). if d < 0 then 1 else 0, \<lambda>(y, d). nat \<bar>d\<bar>]")
     (auto simp: DaysInYear_def)

declare year_from.simps [simp del]

text \<open>
  The walk starts at the first year of the 400-year cycle of the day (a cycle has 146097
  days; 2000-01-01 is day 10957).
\<close>

definition year_and_day :: "int \<Rightarrow> int \<times> int" where
  "year_and_day t =
     (let z = Day t - 10957; era = z div 146097
      in year_from (2000 + 400 * era) (z mod 146097))"

definition YearFromTime :: "int \<Rightarrow> int" where
  "YearFromTime t = fst (year_and_day t)"

definition DayWithinYear :: "int \<Rightarrow> int" where
  "DayWithinYear t = snd (year_and_day t)"

definition month_lengths :: "int \<Rightarrow> int list" where
  "month_lengths y = [31, DaysInYear y - 337, 31, 30, 31, 30, 31, 31, 30, 31, 30, 31]"

fun month_from :: "int \<Rightarrow> int list \<Rightarrow> int \<Rightarrow> int \<times> int" where
  "month_from d [] m = (m, d)"
| "month_from d (l # ls) m = (if d < l then (m, d) else month_from (d - l) ls (m + 1))"

definition MonthFromTime :: "int \<Rightarrow> int" where
  "MonthFromTime t = fst (month_from (DayWithinYear t) (month_lengths (YearFromTime t)) 0)"

definition DateFromTime :: "int \<Rightarrow> int" where
  "DateFromTime t = snd (month_from (DayWithinYear t) (month_lengths (YearFromTime t)) 0) + 1"

text \<open>The getters of \<open>Date.prototype\<close>, on the time value of the object.\<close>

fun getUTCFullYear :: "number \<Rightarrow> number" where
  "getUTCFullYear NaN = NaN"
| "getUTCFullYear (Number t) = Number (YearFromTime t)"

fun getUTCMonth :: "number \<Rightarrow> number" where
  "getUTCMonth NaN = NaN"
| "getUTCMonth (Number t) = Number (MonthFromTime t)"

fun getUTCDate :: "number \<Rightarrow> number" where
  "getUTCDate NaN = NaN"
| "getUTCDate (Number t) = Number (DateFromTime t)"

fun plus_number :: "number \<Rightarrow> int \<Rightarrow> number" where
  "plus_number NaN k = NaN"
| "plus_number (Number i) k = Number (i + k)"

text \<open>\<open>a > b\<close> on numbers: false when either is \<open>NaN\<close>.\<close>

fun greater_number :: "number \<Rightarrow> number \<Rightarrow> bool" where
  "greater_number (Number a) (Number b) = (a > b)"
| "greater_number _ _ = False"

text \<open>\<open>String(n)\<close> and \<open>`${n}`\<close> for these numbers: decimal digits, a minus sign, or \<open>NaN\<close>.\<close>

definition digit_char :: "nat \<Rightarrow> char" where
  "digit_char n = char_of (48 + n)"

function digits :: "nat \<Rightarrow> string" where
  "digits n = (if n < 10 then [digit_char n] else digits (n div 10) @ [digit_char (n mod 10)])"
  by pat_completeness auto
termination
  by (relation "measure (\<lambda>n. n)") auto

declare digits.simps [simp del]

fun String_number :: "number \<Rightarrow> string" where
  "String_number NaN = ''NaN''"
| "String_number (Number i) = (if i < 0 then CHR ''-'' # digits (nat (- i)) else digits (nat i))"

text \<open>\<open>s.padStart(n, c)\<close> for a one-character pad string.\<close>

definition padStart :: "nat \<Rightarrow> char \<Rightarrow> string \<Rightarrow> string" where
  "padStart n c s = replicate (n - length s) c @ s"

text \<open>
  \<open>a < b\<close> on strings compares code units from the left; a proper prefix is smaller.
  \<open>a >= b\<close> is \<open>!(a < b)\<close> and \<open>a <= b\<close> is \<open>!(b < a)\<close>.
\<close>

fun less_string :: "string \<Rightarrow> string \<Rightarrow> bool" where
  "less_string [] [] = False"
| "less_string [] (b # bs) = True"
| "less_string (a # as) [] = False"
| "less_string (a # as) (b # bs) =
     (if (of_char a :: nat) < of_char b then True
      else if (of_char b :: nat) < of_char a then False
      else less_string as bs)"

definition greater_eq_string :: "string \<Rightarrow> string \<Rightarrow> bool" where
  "greater_eq_string a b = (\<not> less_string a b)"

definition less_eq_string :: "string \<Rightarrow> string \<Rightarrow> bool" where
  "less_eq_string a b = (\<not> less_string b a)"

text \<open>The regular expression \<open>/^\d{4}-\d{2}-\d{2}$/\<close>.\<close>

definition is_digit :: "char \<Rightarrow> bool" where
  "is_digit c = (48 \<le> (of_char c :: nat) \<and> (of_char c :: nat) \<le> 57)"

fun dateRegex_test :: "string \<Rightarrow> bool" where
  "dateRegex_test [y1, y2, y3, y4, s1, m1, m2, s2, d1, d2] =
     (is_digit y1 \<and> is_digit y2 \<and> is_digit y3 \<and> is_digit y4 \<and> s1 = CHR ''-'' \<and>
      is_digit m1 \<and> is_digit m2 \<and> s2 = CHR ''-'' \<and> is_digit d1 \<and> is_digit d2)"
| "dateRegex_test _ = False"

text \<open>The value of a string of decimal digits, and the three fields of \<open>YYYY-MM-DD\<close>.\<close>

fun dec_val :: "string \<Rightarrow> nat" where
  "dec_val [] = 0"
| "dec_val (c # cs) = (of_char c - 48) * 10 ^ length cs + dec_val cs"

definition ymd_fields :: "string \<Rightarrow> int \<times> int \<times> int" where
  "ymd_fields s =
     (int (dec_val (take 4 s)), int (dec_val (take 2 (drop 5 s))), int (dec_val (take 2 (drop 8 s))))"

text \<open>
  \<open>new Date(s)\<close> for a string that has passed the regular expression (the date-only ISO
  form, read as UTC). Node's parser accepts months 01 to 12 and days 01 to 31, and lets a
  day past the end of its month run into the next one; anything else gives an invalid date.
\<close>

definition MakeDay :: "int \<Rightarrow> int \<Rightarrow> int \<Rightarrow> int" where
  "MakeDay y m dt = DayFromYear y + sum_list (take (nat (m - 1)) (month_lengths y)) + dt - 1"

definition Date_of_string :: "string \<Rightarrow> number" where
  "Date_of_string s =
     (case ymd_fields s of (y, m, d) \<Rightarrow>
        if 1 \<le> m \<and> m \<le> 12 \<and> 1 \<le> d \<and> d \<le> 31 then Number (MakeDay y m d * msPerDay)
        else NaN)"

section \<open>Command line arguments\<close>

text \<open>
  The object \<open>parseArguments\<close> returns: \<open>mode\<close> with \<open>date\<close>, or with \<open>startDate\<close> and
  \<open>endDate\<close>, and the three flags. (Its \<open>Date\<close> objects are not read again.)
\<close>

datatype target = Single string | Range string string

record date_filter =
  target :: target
  deleteUsers :: bool
  debug :: bool
  dryRun :: bool

text \<open>\<open>process.exit(code)\<close> ends the script: \<open>Inl code\<close>.\<close>

definition validateDate :: "string \<Rightarrow> int + number" where
  "validateDate dateStr =
     (if \<not> dateRegex_test dateStr then Inl 1
      else case Date_of_string dateStr of NaN \<Rightarrow> Inl 1 | Number t \<Rightarrow> Inr (Number t))"

text \<open>\<open>parseArguments\<close>, on \<open>process.argv.slice(2)\<close>.\<close>

definition parseArguments :: "string list \<Rightarrow> int + date_filter" where
  "parseArguments argv =
     (if ''--help'' \<in> set argv \<or> ''-h'' \<in> set argv then Inl 0
      else
        let deleteUsers = (''--users'' \<in> set argv);
            args = filter (\<lambda>arg. arg \<noteq> ''--users'') argv;
            debug = (''--debug'' \<in> set args);
            args = filter (\<lambda>arg. arg \<noteq> ''--debug'') args;
            dryRun = (''--dry-run'' \<in> set args);
            args = filter (\<lambda>arg. arg \<noteq> ''--dry-run'') args
        in
        if length args = 0 then Inl 1
        else if length args = 1 then
          (case validateDate (args ! 0) of
             Inl code \<Rightarrow> Inl code
           | Inr date \<Rightarrow>
               Inr \<lparr>target = Single (args ! 0),
                    deleteUsers = deleteUsers, debug = debug, dryRun = dryRun\<rparr>)
        else if length args = 2 then
          (case validateDate (args ! 0) of
             Inl code \<Rightarrow> Inl code
           | Inr startDate \<Rightarrow>
               (case validateDate (args ! 1) of
                  Inl code \<Rightarrow> Inl code
                | Inr endDate \<Rightarrow>
                    if greater_number startDate endDate then Inl 1
                    else Inr \<lparr>target = Range (args ! 0) (args ! 1),
                              deleteUsers = deleteUsers, debug = debug, dryRun = dryRun\<rparr>))
        else Inl 1)"

section \<open>Entities and the date filter\<close>

text \<open>
  An organization or user as the listing returns it. A property that is absent is \<open>None\<close>.
  \<open>createdAt\<close> is \<open>None\<close> when the property is absent or falsy (the empty string);
  otherwise it holds the time value of \<open>new Date(entity.createdAt)\<close>, which is \<open>NaN\<close>
  when the value does not parse as a date.
\<close>

record entity =
  entity_id :: string
  name :: "string option"
  firstName :: "string option"
  lastName :: "string option"
  email :: "string option"
  createdAt :: "number option"

datatype entityType = Organization | User

text \<open>The first five statements of \<open>matchesDateFilter\<close>: the value of \<open>dateStr\<close>.\<close>

definition dateStr :: "number \<Rightarrow> string" where
  "dateStr createdDate =
     (let year = getUTCFullYear createdDate;
          month = padStart 2 (CHR ''0'') (String_number (plus_number (getUTCMonth createdDate) 1));
          day = padStart 2 (CHR ''0'') (String_number (getUTCDate createdDate))
      in String_number year @ ''-'' @ month @ ''-'' @ day)"

definition matchesDateFilter :: "date_filter \<Rightarrow> number \<Rightarrow> bool" where
  "matchesDateFilter dateFilter createdDate =
     (case target dateFilter of
        Single date \<Rightarrow> dateStr createdDate = date
      | Range startDate endDate \<Rightarrow>
          greater_eq_string (dateStr createdDate) startDate \<and>
          less_eq_string (dateStr createdDate) endDate)"

text \<open>
  \<open>filterByDate\<close>: the entities kept, and the warnings its filter callback prints (one
  for each entity without \<open>createdAt\<close>). The other lines it prints are not modelled.
\<close>

datatype warning = NoCreatedAt entityType string

definition filterByDate :: "date_filter \<Rightarrow> entity list \<Rightarrow> entityType \<Rightarrow> entity list \<times> warning list" where
  "filterByDate dateFilter entities entityType =
     (filter (\<lambda>entity. case createdAt entity of
                          None \<Rightarrow> False
                        | Some created \<Rightarrow> matchesDateFilter dateFilter created) entities,
      [NoCreatedAt entityType (entity_id entity). entity \<leftarrow> entities, createdAt entity = None])"

text \<open>
  The calendar day of a time value and of a \<open>YYYY-MM-DD\<close> string, as (year, month, day),
  and the order of days.
\<close>

definition utc_day :: "int \<Rightarrow> int \<times> int \<times> int" where
  "utc_day t = (YearFromTime t, MonthFromTime t + 1, DateFromTime t)"

fun day_less :: "int \<times> int \<times> int \<Rightarrow> int \<times> int \<times> int \<Rightarrow> bool" where
  "day_less (y, m, d) (y', m', d') = (y < y' \<or> (y = y' \<and> (m < m' \<or> (m = m' \<and> d < d'))))"

definition day_less_eq :: "int \<times> int \<times> int \<Rightarrow> int \<times> int \<times> int \<Rightarrow> bool" where
  "day_less_eq a b = (day_less a b \<or> a = b)"

text \<open>
  What the date filter is to select: a creation instant whose day is the target day, or
  lies between the first and the last day of the range.
\<close>

definition on_target_day :: "target \<Rightarrow> int \<Rightarrow> bool" where
  "on_target_day tg t =
     (case tg of
        Single date \<Rightarrow> utc_day t = ymd_fields date
      | Range startDate endDate \<Rightarrow>
          day_less_eq (ymd_fields startDate) (utc_day t) \<and>
          day_less_eq (utc_day t) (ymd_fields endDate))"

definition created_on_target :: "target \<Rightarrow> entity \<Rightarrow> bool" where
  "created_on_target tg entity =
     (case createdAt entity of
        Some (Number t) \<Rightarrow> on_target_day tg t
      | _ \<Rightarrow> False)"

text \<open>The date strings of a filter that \<open>parseArguments\<close> has let through match its regular expression.\<close>

fun validated :: "target \<Rightarrow> bool" where
  "validated (Single date) = dateRegex_test date"
| "validated (Range startDate endDate) = (dateRegex_test startDate \<and> dateRegex_test endDate)"

definition four_digit_year :: "entity \<Rightarrow> bool" where
  "four_digit_year entity =
     (case createdAt entity of
        Some (Number t) \<Rightarrow> 1000 \<le> YearFromTime t \<and> YearFromTime t \<le> 9999
      | _ \<Rightarrow> True)"

text \<open>A time value from calendar fields (month from 1), for writing down instants.\<close>

definition utc :: "int \<Rightarrow> int \<Rightarrow> int \<Rightarrow> int \<Rightarrow> int \<Rightarrow> int \<Rightarrow> int" where
  "utc y m d hh mm ss = MakeDay y m d * msPerDay + ((hh * 60 + mm) * 60 + ss) * 1000"

text \<open>Concrete filters and organizations for the examples.\<close>

definition filter_of :: "target \<Rightarrow> date_filter" where
  "filter_of tg = \<lparr>target = tg, deleteUsers = False, debug = False, dryRun = False\<rparr>"

definition org :: "string \<Rightarrow> number option \<Rightarrow> entity" where
  "org ident created =
     \<lparr>entity_id = ident, name = Some ident, firstName = None, lastName = None, email = None,
      createdAt = created\<rparr>"

section \<open>Deleting entities with bounded concurrency\<close>

text \<open>
  \<open>v || 'Unnamed'\<close> and \<open>`${v}`\<close> for a property that holds a string or is absent: the
  absent property and the empty string are falsy; an absent property prints as
  \<open>undefined\<close>.
\<close>

definition truthy :: "string option \<Rightarrow> bool" where
  "truthy v = (case v of None \<Rightarrow> False | Some s \<Rightarrow> s \<noteq> [])"

definition or_Unnamed :: "string option \<Rightarrow> string" where
  "or_Unnamed v = (if truthy v then (case v of None \<Rightarrow> ''Unnamed'' | Some s \<Rightarrow> s) else ''Unnamed'')"

definition template :: "string option \<Rightarrow> string" where
  "template v = (case v of None \<Rightarrow> ''undefined'' | Some s \<Rightarrow> s)"

text \<open>The \<open>name\<close> a deletion task computes for its entity.\<close>

definition task_name :: "entityType \<Rightarrow> entity \<Rightarrow> string" where
  "task_name entityType entity =
     (if entityType = Organization then or_Unnamed (name entity)
      else if truthy (firstName entity) \<and> truthy (lastName entity)
        then template (firstName entity) @ '' '' @ template (lastName entity)
      else or_Unnamed (email entity))"

text \<open>The \<open>name\<close> of the dry-run branch.\<close>

definition dry_run_name :: "entityType \<Rightarrow> entity \<Rightarrow> string" where
  "dry_run_name entityType e =
     (if entityType = Organization then or_Unnamed (name e) else or_Unnamed (email e))"

text \<open>The objects pushed to \<open>results.successful\<close> and, with \<open>error\<close>, to \<open>results.failed\<close>.\<close>

record outcome =
  outcome_id :: string
  outcome_name :: string
  outcome_createdAt :: "number option"

record failed_outcome = outcome +
  error :: string

record results =
  successful :: "outcome list"
  failed :: "failed_outcome list"

text \<open>
  The state of a call of \<open>deleteEntitiesConcurrently\<close> that has reached its loop. A task is
  an entity with its position in \<open>entities\<close>. \<open>remaining\<close> holds the entities the \<open>for\<close>
  loop has not reached; \<open>processingQueue\<close> the tasks started and not yet settled (a settled
  promise is spliced out by its \<open>finally\<close> callback, which was registered before any
  \<open>Promise.race\<close> on it and so runs before the loop resumes); \<open>effects\<close> the token
  acquisitions, remote calls and sleeps of the tasks settled so far.
\<close>

datatype control = Loop | Waiting | Resumed | Draining | Done

type_synonym task = "nat \<times> entity"

record deleter =
  remaining :: "task list"
  processingQueue :: "task list"
  successful_so_far :: "outcome list"
  failed_so_far :: "failed_outcome list"
  control :: control
  effects :: "(nat \<times> effect) list"

definition initial :: "entity list \<Rightarrow> deleter" where
  "initial entities =
     \<lparr>remaining = zip [0..<length entities] entities, processingQueue = [],
      successful_so_far = [], failed_so_far = [], control = Loop, effects = []\<rparr>"

text \<open>
  The remote delete capability: \<open>deleteFunction i k\<close> is how the \<open>k\<close>-th invocation of
  \<open>deleteFunction(entity.id)\<close> made by the task of the \<open>i\<close>-th entity settles.

  A task runs \<open>executeWithRateLimit\<close> on its call and pushes one object: to \<open>failed\<close> when
  the executor throws, to \<open>successful\<close> otherwise. Its promise then leaves the queue, and a
  loop that waits in \<open>Promise.race\<close> resumes. (The progress bar and the lines printed are
  not modelled.)
\<close>

definition settle :: "(nat \<Rightarrow> nat \<Rightarrow> unit response) \<Rightarrow> entityType \<Rightarrow> task \<Rightarrow> deleter \<Rightarrow> deleter" where
  "settle deleteFunction entityType t s =
     (case t of (i, entity) \<Rightarrow>
        (case executeWithRateLimit (deleteFunction i) 3 of (es, completion) \<Rightarrow>
           (case completion of
              Threw err \<Rightarrow>
                s\<lparr>failed_so_far := failed_so_far s @
                     [\<lparr>outcome_id = entity_id entity, outcome_name = task_name entityType entity,
                       outcome_createdAt = createdAt entity, error = message err\<rparr>]\<rparr>
            | _ \<Rightarrow>
                s\<lparr>successful_so_far := successful_so_far s @
                     [\<lparr>outcome_id = entity_id entity, outcome_name = task_name entityType entity,
                       outcome_createdAt = createdAt entity\<rparr>]\<rparr>)
           \<lparr>processingQueue := remove1 t (processingQueue s),
            effects := effects s @ map (Pair i) es,
            control := (if control s = Waiting then Resumed else control s)\<rparr>))"

definition launch :: "task \<Rightarrow> task list \<Rightarrow> deleter \<Rightarrow> deleter" where
  "launch t ts s = s\<lparr>remaining := ts, processingQueue := processingQueue s @ [t], control := Loop\<rparr>"

text \<open>
  The tasks and the loop run interleaved on one thread. An event is either the loop taking
  its next step (it starts the task of the next entity; or finds the limit reached and goes
  to wait in \<open>Promise.race\<close>; or, resumed from there, starts the next task without a second
  check; or goes on to \<open>Promise.all\<close>; or returns), or the task of the \<open>i\<close>-th entity
  settling. A step is \<open>None\<close> when the event cannot happen in the state: the loop blocked in
  \<open>Promise.race\<close> or \<open>Promise.all\<close>, or no such task in flight. Tasks may settle between
  any two steps of the loop, which on the single thread happens at its \<open>await\<close>s only: the
  schedules of the model include all those of the script.
\<close>

datatype event = MainRuns | TaskSettles nat

fun step :: "int \<Rightarrow> (nat \<Rightarrow> nat \<Rightarrow> unit response) \<Rightarrow> entityType \<Rightarrow> event \<Rightarrow> deleter \<Rightarrow> deleter option" where
  "step CONCURRENCY_LIMIT deleteFunction entityType MainRuns s =
     (case control s of
        Loop \<Rightarrow>
          (case remaining s of
             [] \<Rightarrow> Some (s\<lparr>control := Draining\<rparr>)
           | t # ts \<Rightarrow>
               if int (length (processingQueue s)) \<ge> CONCURRENCY_LIMIT
               then Some (s\<lparr>control := Waiting\<rparr>)
               else Some (launch t ts s))
      | Waiting \<Rightarrow> None
      | Resumed \<Rightarrow>
          (case remaining s of
             [] \<Rightarrow> None
           | t # ts \<Rightarrow> Some (launch t ts s))
      | Draining \<Rightarrow> if processingQueue s = [] then Some (s\<lparr>control := Done\<rparr>) else None
      | Done \<Rightarrow> None)"
| "step CONCURRENCY_LIMIT deleteFunction entityType (TaskSettles i) s =
     (case find (\<lambda>t. fst t = i) (processingQueue s) of
        None \<Rightarrow> None
      | Some t \<Rightarrow> Some (settle deleteFunction entityType t s))"

fun run :: "int \<Rightarrow> (nat \<Rightarrow> nat \<Rightarrow> unit response) \<Rightarrow> entityType \<Rightarrow> event list \<Rightarrow> deleter \<Rightarrow> deleter option" where
  "run CONCURRENCY_LIMIT deleteFunction entityType [] s = Some s"
| "run CONCURRENCY_LIMIT deleteFunction entityType (ev # evs) s =
     (case step CONCURRENCY_LIMIT deleteFunction entityType ev s of
        None \<Rightarrow> None
      | Some s' \<Rightarrow> run CONCURRENCY_LIMIT deleteFunction entityType evs s')"

text \<open>
  \<open>deleteEntitiesConcurrently\<close>, under a schedule of events: the object it returns and the
  effects of its tasks, or \<open>None\<close> when the schedule does not bring the call to its
  \<open>return\<close>.
\<close>

definition deleteEntitiesConcurrently ::
  "int \<Rightarrow> date_filter \<Rightarrow> entity list \<Rightarrow> (nat \<Rightarrow> nat \<Rightarrow> unit response) \<Rightarrow> entityType \<Rightarrow> event list
   \<Rightarrow> (results \<times> (nat \<times> effect) list) option" where
  "deleteEntitiesConcurrently CONCURRENCY_LIMIT dateFilter entities deleteFunction entityType schedule =
     (if length entities = 0 then Some (\<lparr>successful = [], failed = []\<rparr>, [])
      else if dryRun dateFilter then
        Some (\<lparr>successful =
                 map (\<lambda>e. \<lparr>outcome_id = entity_id e, outcome_name = dry_run_name entityType e,
                            outcome_createdAt = createdAt e\<rparr>) entities,
               failed = []\<rparr>, [])
      else
        (case run CONCURRENCY_LIMIT deleteFunction entityType schedule (initial entities) of
           None \<Rightarrow> None
         | Some s \<Rightarrow>
             if control s = Done
             then Some (\<lparr>successful = successful_so_far s, failed = failed_so_far s\<rparr>, effects s)
             else None))"

text \<open>
  What each entity's own call decides: the error its executor throws, if any, and the
  object its task pushes.
\<close>

definition task_error :: "(nat \<Rightarrow> nat \<Rightarrow> unit response) \<Rightarrow> task \<Rightarrow> api_error option" where
  "task_error deleteFunction t =
     (case snd (executeWithRateLimit (deleteFunction (fst t)) 3) of
        Threw err \<Rightarrow> Some err
      | _ \<Rightarrow> None)"

definition success_of :: "entityType \<Rightarrow> task \<Rightarrow> outcome" where
  "success_of entityType t =
     \<lparr>outcome_id = entity_id (snd t), outcome_name = task_name entityType (snd t),
      outcome_createdAt = createdAt (snd t)\<rparr>"

definition failure_of :: "entityType \<Rightarrow> task \<Rightarrow> api_error \<Rightarrow> failed_outcome" where
  "failure_of entityType t err =
     \<lparr>outcome_id = entity_id (snd t), outcome_name = task_name entityType (snd t),
      outcome_createdAt = createdAt (snd t), error = message err\<rparr>"

definition own_successes :: "(nat \<Rightarrow> nat \<Rightarrow> unit response) \<Rightarrow> entityType \<Rightarrow> task list \<Rightarrow> outcome list" where
  "own_successes deleteFunction entityType ts =
     List.map_filter (\<lambda>t. case task_error deleteFunction t of
                             None \<Rightarrow> Some (success_of entityType t)
                           | Some err \<Rightarrow> None) ts"

definition own_failures :: "(nat \<Rightarrow> nat \<Rightarrow> unit response) \<Rightarrow> entityType \<Rightarrow> task list \<Rightarrow> failed_outcome list" where
  "own_failures deleteFunction entityType ts =
     List.map_filter (\<lambda>t. map_option (failure_of entityType t) (task_error deleteFunction t)) ts"

text \<open>The schedule that lets each task settle before the next is started.\<close>

definition one_by_one :: "nat \<Rightarrow> event list" where
  "one_by_one n = concat (map (\<lambda>i. [MainRuns, TaskSettles i]) [0..<n]) @ [MainRuns, MainRuns]"


text \<open>Invariants of the loop.\<close>

definition within_limit :: "int \<Rightarrow> deleter \<Rightarrow> bool" where
  "within_limit CONCURRENCY_LIMIT s =
     (int (length (processingQueue s)) \<le> CONCURRENCY_LIMIT \<and>
      (control s = Resumed \<longrightarrow> int (length (processingQueue s)) < CONCURRENCY_LIMIT))"

definition control_ok :: "deleter \<Rightarrow> bool" where
  "control_ok s =
     ((control s = Draining \<or> control s = Done \<longrightarrow> remaining s = []) \<and>
      (control s = Done \<longrightarrow> processingQueue s = []) \<and>
      (control s = Resumed \<or> control s = Waiting \<longrightarrow> remaining s \<noteq> []))"

definition accounted ::
  "(nat \<Rightarrow> nat \<Rightarrow> unit response) \<Rightarrow> entityType \<Rightarrow> task list \<Rightarrow> deleter \<Rightarrow> bool" where
  "accounted deleteFunction entityType ts s =
     (mset (successful_so_far s) +
        mset (own_successes deleteFunction entityType (processingQueue s @ remaining s)) =
        mset (own_successes deleteFunction entityType ts) \<and>
      mset (failed_so_far s) +
        mset (own_failures deleteFunction entityType (processingQueue s @ remaining s)) =
        mset (own_failures deleteFunction entityType ts))"


text \<open>
  A loop that waits has found the limit reached; and a measure that every step decreases.
\<close>

definition waits_at_limit :: "int \<Rightarrow> deleter \<Rightarrow> bool" where
  "waits_at_limit CONCURRENCY_LIMIT s =
     (control s = Waiting \<longrightarrow> CONCURRENCY_LIMIT \<le> int (length (processingQueue s)))"

fun control_weight :: "control \<Rightarrow> nat" where
  "control_weight Loop = 2"
| "control_weight Waiting = 1"
| "control_weight Resumed = 2"
| "control_weight Draining = 1"
| "control_weight Done = 0"

definition steps_left :: "deleter \<Rightarrow> nat" where
  "steps_left s =
     3 * length (remaining s) + 2 * length (processingQueue s) + control_weight (control s)"


text \<open>
  The display name by precedence: \<open>name\<close>, then \<open>firstName lastName\<close> (when both are
  there), then \<open>email\<close>, then the placeholder.
\<close>

definition display_name :: "entity \<Rightarrow> string" where
  "display_name e =
     (if truthy (name e) then template (name e)
      else if truthy (firstName e) \<and> truthy (lastName e)
        then template (firstName e) @ '' '' @ template (lastName e)
      else if truthy (email e) then template (email e)
      else ''Unnamed'')"

text \<open>Concrete entities and remote behaviour for the examples.\<close>

definition ada :: entity where
  "ada = \<lparr>entity_id = ''user_01'', name = None, firstName = Some ''Ada'',
          lastName = Some ''Lovelace'', email = Some ''ada@example.com'', createdAt = None\<rparr>"

definition not_found :: api_error where
  "not_found = \<lparr>status = Some 404, message = ''Not Found''\<rparr>"

definition second_fails :: "nat \<Rightarrow> nat \<Rightarrow> unit response" where
  "second_fails i k = (if i = 1 then Rejected not_found else Resolved ())"


section \<open>The script\<close>

text \<open>
  What a run of the script meets outside itself: the API key and the concurrency limit of
  the environment, what the two paginated fetches end with (the accumulated list, or the
  error they rethrow; the pagination itself is not modelled), how the remote delete calls
  settle, and the schedules of the two deletion phases.
\<close>

record environment =
  api_key :: "string option"
  concurrency_limit :: int
  fetchAllOrganizations :: "api_error + entity list"
  fetchAllUsers :: "api_error + entity list"
  deleteOrganization :: "nat \<Rightarrow> nat \<Rightarrow> unit response"
  deleteUser :: "nat \<Rightarrow> nat \<Rightarrow> unit response"
  organization_schedule :: "event list"
  user_schedule :: "event list"

text \<open>
  What \<open>await deleteEntitiesConcurrently(...)\<close> comes to in \<open>main\<close>, under a schedule. The
  call returns its object. Or the loop waits in \<open>Promise.race\<close> on an empty queue: no task
  is in flight that could resume it and nothing else is pending, so the event loop of Node
  runs empty and the process ends there, with status 0 (the progress bar, which is not
  modelled, is taken to hold no timer, as when the output is not a terminal). Or the
  schedule stops short of both.
\<close>

datatype awaited = CallReturns results | NothingPending | Unfinished

definition await_deletion ::
  "int \<Rightarrow> date_filter \<Rightarrow> entity list \<Rightarrow> (nat \<Rightarrow> nat \<Rightarrow> unit response) \<Rightarrow> entityType \<Rightarrow> event list
   \<Rightarrow> awaited" where
  "await_deletion CONCURRENCY_LIMIT dateFilter entities deleteFunction entityType schedule =
     (case deleteEntitiesConcurrently CONCURRENCY_LIMIT dateFilter entities deleteFunction
             entityType schedule of
        Some (r, task_effects) \<Rightarrow> CallReturns r
      | None \<Rightarrow>
          (case run CONCURRENCY_LIMIT deleteFunction entityType schedule (initial entities) of
             None \<Rightarrow> Unfinished
           | Some s \<Rightarrow>
               if control s = Waiting \<and> processingQueue s = [] then NothingPending
               else Unfinished))"

text \<open>
  \<open>main\<close>: the status the process ends with, or \<open>None\<close> when a deletion phase is not
  finished under its schedule. An error thrown inside the \<open>try\<close> block ends in the
  \<open>catch\<close> block, which exits with 1.
\<close>

definition main :: "date_filter \<Rightarrow> environment \<Rightarrow> int option" where
  "main dateFilter env =
     (if \<not> truthy (api_key env) then Some 1
      else
        (case fetchAllOrganizations env of
           Inl err \<Rightarrow> Some 1
         | Inr allOrganizations \<Rightarrow>
             let organizationsToDelete = fst (filterByDate dateFilter allOrganizations Organization) in
             (case await_deletion (concurrency_limit env) dateFilter
                     organizationsToDelete (deleteOrganization env) Organization
                     (organization_schedule env) of
                Unfinished \<Rightarrow> None
              | NothingPending \<Rightarrow> Some 0
              | CallReturns orgResults \<Rightarrow>
                  if deleteUsers dateFilter then
                    (case fetchAllUsers env of
                       Inl err \<Rightarrow> Some 1
                     | Inr allUsers \<Rightarrow>
                         let usersToDelete = fst (filterByDate dateFilter allUsers User) in
                         (case await_deletion (concurrency_limit env) dateFilter
                                 usersToDelete (deleteUser env) User (user_schedule env) of
                            Unfinished \<Rightarrow> None
                          | NothingPending \<Rightarrow> Some 0
                          | CallReturns userResults \<Rightarrow>
                              let totalFailed = length (failed orgResults) + length (failed userResults)
                              in Some (if totalFailed > 0 then 1 else 0)))
                  else
                    let totalFailed = length (failed orgResults) + 0
                    in Some (if totalFailed > 0 then 1 else 0))))"

text \<open>
  The module, from its first statement. \<open>new WorkOS(process.env.WORKOS_API_KEY)\<close> comes
  before everything else: without a key the constructor of the SDK throws, nothing catches
  it, and the process ends with status 1 before \<open>parseArguments\<close> is called. With a key,
  \<open>parseArguments\<close> runs (\<open>const dateFilter = parseArguments()\<close>), then \<open>main\<close>.
\<close>

definition script :: "string list \<Rightarrow> environment \<Rightarrow> int option" where
  "script argv env =
     (if \<not> truthy (api_key env) then Some 1
      else
        (case parseArguments argv of
           Inl code \<Rightarrow> Some code
         | Inr dateFilter \<Rightarrow> main dateFilter env))"

text \<open>
  A day of the calendar written \<open>YYYY-MM-DD\<close>: four, two and two digits, the month one of
  the twelve, the day one of the days that month has in that year.
\<close>

definition leap_year :: "int \<Rightarrow> bool" where
  "leap_year y = (y mod 4 = 0 \<and> (0 < y mod 100 \<or> y mod 400 = 0))"

definition days_in_month :: "int \<Rightarrow> int \<Rightarrow> int" where
  "days_in_month y m =
     (if m = 2 then (if leap_year y then 29 else 28)
      else if m = 4 \<or> m = 6 \<or> m = 9 \<or> m = 11 then 30
      else 31)"

definition calendar_date :: "string \<Rightarrow> bool" where
  "calendar_date s =
     (dateRegex_test s \<and>
      (case ymd_fields s of (y, m, d) \<Rightarrow>
         1 \<le> m \<and> m \<le> 12 \<and> 1 \<le> d \<and> d \<le> days_in_month y m))"

text \<open>
  Every deletion attempted in a phase succeeds: in a dry run none is attempted; otherwise
  the executor must not throw for any selected entity.
\<close>

definition all_deleted :: "date_filter \<Rightarrow> (nat \<Rightarrow> nat \<Rightarrow> unit response) \<Rightarrow> entity list \<Rightarrow> bool" where
  "all_deleted dateFilter deleteFunction selected =
     (dryRun dateFilter \<or>
      list_all (\<lambda>t. task_error deleteFunction t = None) (zip [0..<length selected] selected))"

text \<open>
  A run that nothing aborts and in which no deletion fails: the key is set, each fetch that
  is made returns its list, and every deletion attempted for organizations and, with
  \<open>--users\<close>, for users succeeds.
\<close>

definition run_clean :: "date_filter \<Rightarrow> environment \<Rightarrow> bool" where
  "run_clean dateFilter env =
     (truthy (api_key env) \<and>
      (case fetchAllOrganizations env of
         Inl err \<Rightarrow> False
       | Inr allOrganizations \<Rightarrow>
           all_deleted dateFilter (deleteOrganization env)
             (fst (filterByDate dateFilter allOrganizations Organization)) \<and>
           (if deleteUsers dateFilter then
              (case fetchAllUsers env of
                 Inl err \<Rightarrow> False
               | Inr allUsers \<Rightarrow>
                   all_deleted dateFilter (deleteUser env)
                     (fst (filterByDate dateFilter allUsers User)))
            else True)))"


text \<open>A concrete environment for the examples.\<close>

definition demo_env :: environment where
  "demo_env =
     \<lparr>api_key = Some ''sk_test'', concurrency_limit = 40,
      fetchAllOrganizations =
        Inr [org ''A'' (Some (Number (utc 2005 12 17 23 59 59))),
             org ''B'' (Some (Number (utc 2005 12 18 0 0 0)))],
      fetchAllUsers = Inr [],
      deleteOrganization = (\<lambda>i k. Resolved ()),
      deleteUser = (\<lambda>i k. Resolved ()),
      organization_schedule = one_by_one 1,
      user_schedule = []\<rparr>"


section \<open>The retrying executor: the backoff schedule\<close>

text \<open>
  C1 (backoff schedule). With \<open>maxRetries = 3\<close> and a call that is rejected with status 429
  on every attempt, the executor makes three attempts and sleeps between them only: 2000 ms
  after the first and 4000 ms after the second. The third rejection is thrown at once (the
  guard \<open>attempt < maxRetries\<close> is false), so no sleep of 8000 ms takes place, while the
  error thrown is the one of the call.
\<close>

theorem backoff_schedule_three_retries:
  "executeWithRateLimit (\<lambda>k. Rejected rate_limited :: unit response) 3 =
     ([AcquireToken, ApiCall, Backoff 2000,
       AcquireToken, ApiCall, Backoff 4000,
       AcquireToken, ApiCall], Threw rate_limited)
   \<and> backoffs (fst (executeWithRateLimit (\<lambda>k. Rejected rate_limited :: unit response) 3)) = [2000, 4000]"
  by (simp add: executeWithRateLimit_def attempts.simps rate_limited_def)

text \<open>
  In general, a call that is always rejected with status 429 is attempted \<open>maxRetries\<close>
  times, with one sleep fewer than attempts.
\<close>

lemma always_rate_limited:
  "1 \<le> a \<Longrightarrow> a \<le> m \<Longrightarrow>
   backoffs (fst (attempts (\<lambda>k. Rejected rate_limited :: 'a response) m a))
     = map (\<lambda>k. 2 ^ k * 1000) [a..<m]
   \<and> snd (attempts (\<lambda>k. Rejected rate_limited :: 'a response) m a) = Threw rate_limited"
proof (induction "m - a" arbitrary: a)
  case 0
  then have "a = m" by simp
  then show ?case
    by (subst (1 2) attempts.simps) (simp add: rate_limited_def)
next
  case (Suc n)
  then have lt: "a < m" and n: "n = m - (a + 1)" by simp_all
  from Suc.hyps(1) [OF n] lt
  have IH: "backoffs (fst (attempts (\<lambda>k. Rejected rate_limited :: 'a response) m (a + 1)))
       = map (\<lambda>k. 2 ^ k * 1000) [a + 1..<m]"
    "snd (attempts (\<lambda>k. Rejected rate_limited :: 'a response) m (a + 1)) = Threw rate_limited"
    by simp_all
  have u: "[a..<m] = a # [a + 1..<m]"
    using lt by (simp add: upt_rec)
  show ?case
    using lt IH unfolding u
    by (subst (1 2) attempts.simps) (simp add: rate_limited_def apfst_def map_prod_def split_beta)
qed

lemma sleeps_one_less_than_attempts:
  "1 \<le> maxRetries \<Longrightarrow>
   backoffs (fst (executeWithRateLimit (\<lambda>k. Rejected rate_limited :: 'a response) maxRetries))
     = map (\<lambda>k. 2 ^ k * 1000) [1..<maxRetries]"
  using always_rate_limited [where ?'a = 'a and a = 1 and m = maxRetries]
  by (simp add: executeWithRateLimit_def)

section \<open>The token bucket: invariant and refill law\<close>

lemma refillTokens_fields [simp]:
  "capacity (refillTokens now b) = capacity b"
  "refillRate (refillTokens now b) = refillRate b"
  "lastRefill (refillTokens now b) = now"
  by (simp_all add: refillTokens_def Let_def)

lemma refillTokens_ok:
  assumes "bucket_ok b" and "0 \<le> refillRate b" and "lastRefill b \<le> now"
  shows "bucket_ok (refillTokens now b)"
proof -
  have "0 \<le> real_of_int (now - lastRefill b) / 1000 * refillRate b"
    using assms(2,3) by simp
  with assms(1) show ?thesis
    by (simp add: bucket_ok_def refillTokens_def Let_def)
qed

lemma tryAcquire_fields [simp]:
  "capacity (fst (tryAcquire now b)) = capacity b"
  "refillRate (fst (tryAcquire now b)) = refillRate b"
  "lastRefill (fst (tryAcquire now b)) = now"
  by (simp_all add: tryAcquire_def Let_def)

lemma tryAcquire_ok:
  assumes "bucket_ok b" and "0 \<le> refillRate b" and "lastRefill b \<le> now"
  shows "bucket_ok (fst (tryAcquire now b))"
  using refillTokens_ok [OF assms]
  by (simp add: tryAcquire_def Let_def bucket_ok_def)

lemma acquireToken_step:
  "acquireToken (now # later) b =
     (if snd (tryAcquire now b) = Granted then (fst (tryAcquire now b), True)
      else acquireToken later (fst (tryAcquire now b)))"
  by (cases "tryAcquire now b"; cases "snd (tryAcquire now b)") auto

lemma acquireToken_ok:
  "bucket_ok b \<Longrightarrow> 0 \<le> refillRate b \<Longrightarrow> sorted (lastRefill b # polls) \<Longrightarrow>
   bucket_ok (fst (acquireToken polls b)) \<and>
   capacity (fst (acquireToken polls b)) = capacity b \<and>
   refillRate (fst (acquireToken polls b)) = refillRate b \<and>
   lastRefill (fst (acquireToken polls b)) \<in> set (lastRefill b # polls)"
proof (induction polls arbitrary: b)
  case Nil
  then show ?case by simp
next
  case (Cons now later)
  let ?b = "fst (tryAcquire now b)"
  have ok: "bucket_ok ?b" using Cons.prems by (intro tryAcquire_ok) auto
  have srt: "sorted (lastRefill ?b # later)" using Cons.prems(3) by simp
  have rate: "0 \<le> refillRate ?b" using Cons.prems(2) by simp
  note IH = Cons.IH [OF ok rate srt]
  show ?case
    using ok IH by (auto simp: acquireToken_step simp del: acquireToken.simps)
qed

lemma perform_ok:
  assumes "bucket_ok b" and "0 \<le> refillRate b" and "sorted (lastRefill b # clock_readings c)"
  shows "bucket_ok (perform c b) \<and> capacity (perform c b) = capacity b \<and>
         refillRate (perform c b) = refillRate b \<and>
         lastRefill (perform c b) \<in> set (lastRefill b # clock_readings c)"
proof (cases c)
  case (CallRefillTokens now)
  then show ?thesis using assms refillTokens_ok [of b now] by simp
next
  case (CallTryAcquire now)
  then show ?thesis using assms tryAcquire_ok [of b now] by simp
next
  case (CallAcquireToken polls)
  then show ?thesis using assms acquireToken_ok [of b polls] by simp
next
  case (CallGetAvailableTokens now)
  then show ?thesis using assms refillTokens_ok [of b now]
    by (simp add: getAvailableTokens_def Let_def)
qed

lemma performs_ok:
  "bucket_ok b \<Longrightarrow> 0 \<le> refillRate b \<Longrightarrow>
   sorted (lastRefill b # concat (map clock_readings cs)) \<Longrightarrow>
   bucket_ok (performs cs b)"
proof (induction cs arbitrary: b)
  case Nil
  then show ?case by simp
next
  case (Cons c cs)
  have s1: "sorted (lastRefill b # clock_readings c)"
    using Cons.prems(3) by (simp add: sorted_append)
  note P = perform_ok [OF Cons.prems(1,2) s1]
  have "sorted (lastRefill (perform c b) # concat (map clock_readings cs))"
    using Cons.prems(3) P by (auto simp: sorted_append)
  with P Cons.prems(2) show ?case
    by (simp add: Cons.IH)
qed

text \<open>
  C5 (token bucket invariant and refill law). A limiter constructed with a non-negative
  rate, and then used through any sequence of calls of its methods whose clock readings
  never go backwards, always has \<open>0 \<le> tokens \<le> capacity\<close>. Every refill sets
  \<open>tokens\<close> to \<open>min(capacity, tokens + elapsedSeconds * refillRate)\<close> and \<open>lastRefill\<close> to
  the current time; every run of \<open>tryAcquire\<close> refills first and then takes one token if
  there is one, so it sets \<open>lastRefill\<close> whether it grants a token or not.
\<close>

theorem token_bucket_invariant:
  assumes "0 \<le> maxRequestsPerSecond"
    and "sorted (t0 # concat (map clock_readings calls))"
  shows "bucket_ok (performs calls (new_TokenBucketRateLimiter maxRequestsPerSecond t0))
    \<and> tokens (refillTokens now b) =
        min (capacity b) (tokens b + real_of_int (now - lastRefill b) / 1000 * refillRate b)
    \<and> lastRefill (refillTokens now b) = now
    \<and> fst (tryAcquire now b) =
        (if 1 \<le> tokens (refillTokens now b)
         then (refillTokens now b)\<lparr>tokens := tokens (refillTokens now b) - 1\<rparr>
         else refillTokens now b)
    \<and> lastRefill (fst (tryAcquire now b)) = now"
proof -
  have "bucket_ok (new_TokenBucketRateLimiter maxRequestsPerSecond t0)"
    using assms(1) by (simp add: bucket_ok_def new_TokenBucketRateLimiter_def)
  then have "bucket_ok (performs calls (new_TokenBucketRateLimiter maxRequestsPerSecond t0))"
    using assms by (intro performs_ok) (simp_all add: new_TokenBucketRateLimiter_def)
  moreover have "fst (tryAcquire now b) =
        (if 1 \<le> tokens (refillTokens now b)
         then (refillTokens now b)\<lparr>tokens := tokens (refillTokens now b) - 1\<rparr>
         else refillTokens now b)"
    by (simp add: tryAcquire_def Let_def)
  ultimately show ?thesis
    by (simp add: refillTokens_def Let_def)
qed

theorem token_bucket_invariant_witness:
  "(0::real) \<le> 2
   \<and> sorted (0 # concat (map clock_readings
        [CallTryAcquire 5, CallTryAcquire 6, CallAcquireToken [100, 400, 700], CallRefillTokens 800]))
   \<and> bucket_ok (performs
        [CallTryAcquire 5, CallTryAcquire 6, CallAcquireToken [100, 400, 700], CallRefillTokens 800]
        (new_TokenBucketRateLimiter 2 0))
   \<and> tokens (refillTokens 250 (new_TokenBucketRateLimiter 2 0)) = 2
   \<and> snd (tryAcquire 100 (fst (tryAcquire 6 (fst (tryAcquire 5 (new_TokenBucketRateLimiter 2 0))))))
       = RetryAfter (Some 500)
   \<and> lastRefill (fst (tryAcquire 100 (fst (tryAcquire 6 (fst (tryAcquire 5
        (new_TokenBucketRateLimiter 2 0))))))) = 100"
  using token_bucket_invariant [of 2 0
      "[CallTryAcquire 5, CallTryAcquire 6, CallAcquireToken [100, 400, 700], CallRefillTokens 800]"
      250 "new_TokenBucketRateLimiter 2 0"]
  by (simp add: new_TokenBucketRateLimiter_def refillTokens_def tryAcquire_def Let_def)

subsection \<open>Calendar fields are in range\<close>

lemma year_from_range:
  "year_from y d = (y', d') \<Longrightarrow> 0 \<le> d' \<and> d' < DaysInYear y'"
proof (induction y d rule: year_from.induct)
  case (1 y d)
  then show ?case
    by (subst (asm) (3) year_from.simps) (auto split: if_splits)
qed

lemma month_from_range:
  "0 \<le> d \<Longrightarrow> d < sum_list ls \<Longrightarrow> (\<And>l. l \<in> set ls \<Longrightarrow> l \<le> 31) \<Longrightarrow>
   month_from d ls m = (m', d') \<Longrightarrow>
   m \<le> m' \<and> m' < m + int (length ls) \<and> 0 \<le> d' \<and> d' < 31"
proof (induction d ls m rule: month_from.induct)
  case (1 d m)
  then show ?case by simp
next
  case (2 d l ls m)
  show ?case
  proof (cases "d < l")
    case True
    have l: "l \<le> 31" using "2.prems"(3) by simp
    from True "2.prems"(4) have "m' = m" and "d' = d" by auto
    with l True "2.prems"(1) show ?thesis by simp
  next
    case False
    with 2 have "m + 1 \<le> m' \<and> m' < m + 1 + int (length ls) \<and> 0 \<le> d' \<and> d' < 31"
      by (intro "2.IH") auto
    then show ?thesis by auto
  qed
qed

lemma sum_month_lengths: "sum_list (month_lengths y) = DaysInYear y"
  by (simp add: month_lengths_def)

lemma month_lengths_le: "l \<in> set (month_lengths y) \<Longrightarrow> l \<le> 31"
  by (auto simp: month_lengths_def DaysInYear_def)

lemma DayWithinYear_range: "0 \<le> DayWithinYear t \<and> DayWithinYear t < DaysInYear (YearFromTime t)"
  using year_from_range [of _ _ "YearFromTime t" "DayWithinYear t"]
  by (simp add: YearFromTime_def DayWithinYear_def year_and_day_def Let_def)

lemma month_date_range:
  "0 \<le> MonthFromTime t \<and> MonthFromTime t \<le> 11 \<and> 1 \<le> DateFromTime t \<and> DateFromTime t \<le> 31"
proof -
  obtain m' d' where md: "month_from (DayWithinYear t) (month_lengths (YearFromTime t)) 0 = (m', d')"
    by (cases "month_from (DayWithinYear t) (month_lengths (YearFromTime t)) 0")
  have "0 \<le> m' \<and> m' < 0 + int (length (month_lengths (YearFromTime t))) \<and> 0 \<le> d' \<and> d' < 31"
    using DayWithinYear_range [of t] md
    by (intro month_from_range [where d = "DayWithinYear t"])
       (auto simp: sum_month_lengths month_lengths_le)
  then show ?thesis
    using md by (simp add: MonthFromTime_def DateFromTime_def month_lengths_def)
qed

subsection \<open>The year of a time value, by its definition in the language standard\<close>

lemma div_next:
  fixes a k :: int
  assumes "0 < k"
  shows "(a + 1) div k = a div k + (if (a + 1) mod k = 0 then 1 else 0)"
proof -
  define q r where "q = a div k" and "r = a mod k"
  have a: "a = k * q + r" and r: "0 \<le> r" "r < k"
    using assms by (simp_all add: q_def r_def)
  show ?thesis
  proof (cases "r + 1 = k")
    case True
    then have e: "a + 1 = k * (q + 1)" using a by (simp add: algebra_simps)
    have "(a + 1) div k = q + 1" and "(a + 1) mod k = 0"
      unfolding e using assms by simp_all
    then show ?thesis by (simp add: q_def)
  next
    case False
    with r have lt: "r + 1 < k" by simp
    have e: "a + 1 = (r + 1) + k * q" using a by simp
    have "(a + 1) div k = q" and "(a + 1) mod k = r + 1"
      unfolding e using assms r lt by simp_all
    with r show ?thesis by (simp add: q_def)
  qed
qed

lemma leap_cycle:
  fixes y :: int
  shows "((y - 1968) mod 4 = 0) = (y mod 4 = 0)"
    and "((y - 1900) mod 100 = 0) = (y mod 100 = 0)"
    and "((y - 1600) mod 400 = 0) = (y mod 400 = 0)"
proof -
  have "(y + 4 * (- 492)) mod 4 = y mod 4" by (rule mod_mult_self2)
  then show "((y - 1968) mod 4 = 0) = (y mod 4 = 0)" by simp
  have "(y + 100 * (- 19)) mod 100 = y mod 100" by (rule mod_mult_self2)
  then show "((y - 1900) mod 100 = 0) = (y mod 100 = 0)" by simp
  have "(y + 400 * (- 4)) mod 400 = y mod 400" by (rule mod_mult_self2)
  then show "((y - 1600) mod 400 = 0) = (y mod 400 = 0)" by simp
qed

lemma centuries:
  fixes y :: int
  shows "y mod 100 = 0 \<Longrightarrow> y mod 4 = 0" and "y mod 400 = 0 \<Longrightarrow> y mod 100 = 0"
proof -
  have "(4::int) dvd 100" and "(100::int) dvd 400" by simp_all
  then show "y mod 100 = 0 \<Longrightarrow> y mod 4 = 0" and "y mod 400 = 0 \<Longrightarrow> y mod 100 = 0"
    by (auto simp: mod_eq_0_iff_dvd elim: dvd_trans)
qed

lemma DayFromYear_next: "DayFromYear (y + 1) = DayFromYear y + DaysInYear y"
proof -
  have a: "(y + 1 - 1969) div 4 = (y - 1969) div 4 + (if y mod 4 = 0 then 1 else 0)"
    using div_next [of 4 "y - 1969"] leap_cycle(1) [of y] by (simp add: algebra_simps)
  have b: "(y + 1 - 1901) div 100 = (y - 1901) div 100 + (if y mod 100 = 0 then 1 else 0)"
    using div_next [of 100 "y - 1901"] leap_cycle(2) [of y] by (simp add: algebra_simps)
  have c: "(y + 1 - 1601) div 400 = (y - 1601) div 400 + (if y mod 400 = 0 then 1 else 0)"
    using div_next [of 400 "y - 1601"] leap_cycle(3) [of y] by (simp add: algebra_simps)
  show ?thesis
    unfolding DayFromYear_def DaysInYear_def a b c
    using centuries [of y] by auto
qed

lemma DayFromYear_prev: "DayFromYear (y - 1) + DaysInYear (y - 1) = DayFromYear y"
  using DayFromYear_next [of "y - 1"] by simp

lemma DayFromYear_era: "DayFromYear (2000 + 400 * e) = 10957 + 146097 * e"
proof -
  have "(31 + 4 * (100 * e)) div 4 = 100 * e + 31 div 4"
    by (rule div_mult_self2) simp
  then have a: "(2000 + 400 * e - 1969) div 4 = 7 + 100 * e" by simp
  have "(99 + 100 * (4 * e)) div 100 = 4 * e + 99 div 100"
    by (rule div_mult_self2) simp
  then have b: "(2000 + 400 * e - 1901) div 100 = 4 * e" by simp
  have "(399 + 400 * e) div 400 = e + 399 div 400"
    by (rule div_mult_self2) simp
  then have c: "(2000 + 400 * e - 1601) div 400 = e" by simp
  show ?thesis
    unfolding DayFromYear_def a b c by simp
qed

lemma year_from_days:
  "year_from y d = (y', d') \<Longrightarrow> DayFromYear y' + d' = DayFromYear y + d"
proof (induction y d rule: year_from.induct)
  case (1 y d)
  show ?case
  proof (cases "d < 0")
    case True
    with "1.prems" have "year_from (y - 1) (d + DaysInYear (y - 1)) = (y', d')"
      by (subst (asm) year_from.simps) simp
    from "1.IH"(1) [OF True this] show ?thesis
      using DayFromYear_prev [of y] by simp
  next
    case False
    show ?thesis
    proof (cases "DaysInYear y \<le> d")
      case True
      with False "1.prems" have "year_from (y + 1) (d - DaysInYear y) = (y', d')"
        by (subst (asm) year_from.simps) simp
      from "1.IH"(2) [OF False True this] show ?thesis
        using DayFromYear_next [of y] by simp
    next
      case inside: False
      with False "1.prems" show ?thesis
        by (subst (asm) year_from.simps) simp
    qed
  qed
qed

lemma YearFromTime_standard:
  "DayFromYear (YearFromTime t) \<le> Day t \<and> Day t < DayFromYear (YearFromTime t + 1)
   \<and> DayWithinYear t = Day t - DayFromYear (YearFromTime t)"
proof -
  let ?z = "Day t - 10957"
  obtain y' d' where w: "year_from (2000 + 400 * (?z div 146097)) (?z mod 146097) = (y', d')"
    by (cases "year_from (2000 + 400 * (?z div 146097)) (?z mod 146097)")
  then have yd: "YearFromTime t = y'" "DayWithinYear t = d'"
    by (simp_all add: YearFromTime_def DayWithinYear_def year_and_day_def Let_def)
  have "DayFromYear y' + d' = 10957 + 146097 * (?z div 146097) + ?z mod 146097"
    using year_from_days [OF w] by (simp add: DayFromYear_era)
  also have "\<dots> = 10957 + ?z"
    by (simp only: add.assoc mult_div_mod_eq)
  finally have s: "DayFromYear y' + d' = Day t" by simp
  from year_from_range [OF w] s show ?thesis
    unfolding yd DayFromYear_next by auto
qed

lemma example_instants:
  "utc 2005 12 17 23 59 59 = 1134863999000"
  "utc 2005 12 18 0 0 0 = 1134864000000"
  "utc 2005 12 16 23 59 59 = 1134777599000"
  "utc 2005 12 17 0 0 0 = 1134777600000"
  "utc 2005 12 25 23 59 59 = 1135555199000"
  "utc 2005 12 26 0 0 0 = 1135555200000"
  "utc 800 6 15 12 0 0 = - 36907272000000"
  "utc 10000 1 1 0 0 0 = 253402300800000"
  by (simp_all add: utc_def MakeDay_def DayFromYear_def month_lengths_def DaysInYear_def msPerDay_def)

subsection \<open>Decimal strings\<close>

lemma of_char_digit_char: "k < 10 \<Longrightarrow> (of_char (digit_char k) :: nat) = 48 + k"
  by (simp add: digit_char_def)

lemma is_digit_digit_char: "k < 10 \<Longrightarrow> is_digit (digit_char k)"
  by (simp add: is_digit_def of_char_digit_char)

lemma digit_char_0: "digit_char 0 = CHR ''0''"
proof -
  have "(of_char (digit_char 0) :: nat) = of_char (CHR ''0'')"
    by (simp add: digit_char_def)
  then show ?thesis by (simp only: of_char_eq_iff)
qed

lemma digits_1: "n < 10 \<Longrightarrow> digits n = [digit_char n]"
  by (simp add: digits.simps)

lemma digits_2: "10 \<le> n \<Longrightarrow> n < 100 \<Longrightarrow> digits n = [digit_char (n div 10), digit_char (n mod 10)]"
  by (subst digits.simps) (simp add: digits_1)

lemma digits_3:
  "100 \<le> n \<Longrightarrow> n < 1000 \<Longrightarrow>
   digits n = [digit_char (n div 100), digit_char (n div 10 mod 10), digit_char (n mod 10)]"
  by (subst digits.simps) (simp add: digits_2 div_mult2_eq [symmetric])

lemma digits_4:
  "1000 \<le> n \<Longrightarrow> n < 10000 \<Longrightarrow>
   digits n = [digit_char (n div 1000), digit_char (n div 100 mod 10),
               digit_char (n div 10 mod 10), digit_char (n mod 10)]"
  by (subst digits.simps) (simp add: digits_3 div_mult2_eq [symmetric])

lemma pad2: "n < 100 \<Longrightarrow>
  padStart 2 (CHR ''0'') (digits n) = [digit_char (n div 10), digit_char (n mod 10)]"
  by (cases "n < 10") (simp_all add: padStart_def digits_1 digits_2 digit_char_0)

subsection \<open>Comparing strings of digits\<close>

lemma less_string_irrefl [simp]: "\<not> less_string a a"
  by (induction a) auto

lemma less_string_append:
  "length a = length a' \<Longrightarrow>
   less_string (a @ b) (a' @ b') = (less_string a a' \<or> (a = a' \<and> less_string b b'))"
proof (induction a a' rule: list_induct2)
  case Nil
  then show ?case by simp
next
  case (Cons x xs y ys)
  show ?case
  proof (cases "x = y")
    case True
    with Cons show ?thesis by simp
  next
    case False
    then have "(of_char x :: nat) \<noteq> of_char y" by simp
    with False show ?thesis by auto
  qed
qed

lemma dec_val_bound: "list_all is_digit cs \<Longrightarrow> dec_val cs < 10 ^ length cs"
proof (induction cs)
  case Nil
  then show ?case by simp
next
  case (Cons c cs)
  then have "of_char c - 48 \<le> (9::nat)" and "dec_val cs < 10 ^ length cs"
    by (auto simp: is_digit_def)
  then have "(of_char c - 48) * 10 ^ length cs + dec_val cs < 9 * 10 ^ length cs + 10 ^ length cs"
    by (intro add_le_less_mono mult_right_mono) auto
  then show ?case by simp
qed

lemma less_string_digits:
  "length a = length b \<Longrightarrow> list_all is_digit a \<Longrightarrow> list_all is_digit b \<Longrightarrow>
   less_string a b = (dec_val a < dec_val b) \<and> (a = b) = (dec_val a = dec_val b)"
proof (induction a b rule: list_induct2)
  case Nil
  then show ?case by simp
next
  case (Cons x xs y ys)
  let ?n = "length xs"
  have dxs: "list_all is_digit xs" "list_all is_digit ys"
    using Cons.prems by simp_all
  have bx: "dec_val xs < 10 ^ ?n"
    using dec_val_bound [OF dxs(1)] .
  have "by": "dec_val ys < 10 ^ ?n"
    using dec_val_bound [OF dxs(2)] Cons.hyps by simp
  have dx: "48 \<le> (of_char x :: nat)" and dy: "48 \<le> (of_char y :: nat)"
    using Cons.prems by (auto simp: is_digit_def)
  have IH: "less_string xs ys = (dec_val xs < dec_val ys)" "(xs = ys) = (dec_val xs = dec_val ys)"
    using Cons by auto
  define p where "p = (of_char x :: nat) - 48"
  define q where "q = (of_char y :: nat) - 48"
  have vx: "dec_val (x # xs) = p * 10 ^ ?n + dec_val xs"
    and vy: "dec_val (y # ys) = q * 10 ^ ?n + dec_val ys"
    using Cons.hyps by (simp_all add: p_def q_def)
  consider (lt) "(of_char x :: nat) < of_char y" | (gt) "(of_char y :: nat) < of_char x"
    | (eq) "x = y"
    by (metis nat_neq_iff of_char_eq_iff)
  then show ?case
  proof cases
    case lt
    then have "p + 1 \<le> q" using dx by (simp add: p_def q_def)
    then have "(p + 1) * 10 ^ ?n \<le> q * 10 ^ ?n"
      by (rule mult_right_mono) simp
    then have "dec_val (x # xs) < dec_val (y # ys)"
      unfolding vx vy using bx by (simp add: algebra_simps)
    moreover from lt have "x \<noteq> y" by auto
    ultimately show ?thesis using lt by simp
  next
    case gt
    then have "q + 1 \<le> p" using dy by (simp add: p_def q_def)
    then have "(q + 1) * 10 ^ ?n \<le> p * 10 ^ ?n"
      by (rule mult_right_mono) simp
    then have "dec_val (y # ys) < dec_val (x # xs)"
      unfolding vx vy using "by" by (simp add: algebra_simps)
    moreover from gt have "x \<noteq> y" by auto
    ultimately show ?thesis using gt by simp
  next
    case eq
    with IH Cons.hyps show ?thesis by simp
  qed
qed

lemma dateRegex_test_form:
  assumes "dateRegex_test s"
  obtains Y M D where "s = Y @ CHR ''-'' # M @ CHR ''-'' # D"
    and "length Y = 4" and "length M = 2" and "length D = 2"
    and "list_all is_digit Y" and "list_all is_digit M" and "list_all is_digit D"
proof -
  from assms obtain y1 y2 y3 y4 m1 m2 d1 d2 where
    s: "s = [y1, y2, y3, y4, CHR ''-'', m1, m2, CHR ''-'', d1, d2]"
    and d: "is_digit y1" "is_digit y2" "is_digit y3" "is_digit y4" "is_digit m1" "is_digit m2"
      "is_digit d1" "is_digit d2"
    by (auto elim!: dateRegex_test.elims)
  show thesis
    by (rule that [of "[y1, y2, y3, y4]" "[m1, m2]" "[d1, d2]"]) (simp_all add: s d)
qed

lemma ymd_fields_form:
  "length Y = 4 \<Longrightarrow> length M = 2 \<Longrightarrow> length D = 2 \<Longrightarrow>
   ymd_fields (Y @ CHR ''-'' # M @ CHR ''-'' # D) = (int (dec_val Y), int (dec_val M), int (dec_val D))"
  by (simp add: ymd_fields_def)

lemma valid_dates_compare:
  assumes "dateRegex_test a" and "dateRegex_test b"
  shows "less_string a b = day_less (ymd_fields a) (ymd_fields b)"
    and "(a = b) = (ymd_fields a = ymd_fields b)"
proof -
  from assms(1) obtain Y M D where a: "a = Y @ CHR ''-'' # M @ CHR ''-'' # D"
    and la: "length Y = 4" "length M = 2" "length D = 2"
    and da: "list_all is_digit Y" "list_all is_digit M" "list_all is_digit D"
    by (rule dateRegex_test_form)
  from assms(2) obtain Y' M' D' where b: "b = Y' @ CHR ''-'' # M' @ CHR ''-'' # D'"
    and lb: "length Y' = 4" "length M' = 2" "length D' = 2"
    and db: "list_all is_digit Y'" "list_all is_digit M'" "list_all is_digit D'"
    by (rule dateRegex_test_form)
  have Y: "less_string Y Y' = (dec_val Y < dec_val Y')" "(Y = Y') = (dec_val Y = dec_val Y')"
    using less_string_digits [of Y Y'] la lb da db by simp_all
  have M: "less_string M M' = (dec_val M < dec_val M')" "(M = M') = (dec_val M = dec_val M')"
    using less_string_digits [of M M'] la lb da db by simp_all
  have D: "less_string D D' = (dec_val D < dec_val D')" "(D = D') = (dec_val D = dec_val D')"
    using less_string_digits [of D D'] la lb da db by simp_all
  have dash: "less_string (CHR ''-'' # u) (CHR ''-'' # v) = less_string u v" for u v
    by simp
  have "less_string a b =
      (less_string Y Y' \<or> (Y = Y' \<and> (less_string M M' \<or> (M = M' \<and> less_string D D'))))"
    unfolding a b using la lb
    by (simp only: less_string_append [of Y Y'] dash less_string_append [of M M'])
  then show "less_string a b = day_less (ymd_fields a) (ymd_fields b)"
    by (simp add: a b ymd_fields_form la lb Y M D)
  show "(a = b) = (ymd_fields a = ymd_fields b)"
    using la lb by (simp add: a b ymd_fields_form Y M D)
qed

subsection \<open>The formatted day of a time value\<close>

lemma dec_val_snoc: "dec_val (cs @ [c]) = dec_val cs * 10 + (of_char c - 48)"
  by (induction cs) (simp_all add: algebra_simps)

lemma dec_val_digits: "dec_val (digits n) = n"
proof (induction n rule: digits.induct)
  case (1 n)
  show ?case
  proof (cases "n < 10")
    case True
    then show ?thesis by (simp add: digits_1 of_char_digit_char)
  next
    case False
    then have "dec_val (digits (n div 10)) = n div 10" using 1 by simp
    with False show ?thesis
      by (subst digits.simps) (simp add: dec_val_snoc of_char_digit_char)
  qed
qed

lemma digits_all_digit: "list_all is_digit (digits n)"
proof (induction n rule: digits.induct)
  case (1 n)
  show ?case
  proof (cases "n < 10")
    case True
    then show ?thesis by (simp add: digits_1 is_digit_digit_char)
  next
    case False
    with 1 show ?thesis
      by (subst digits.simps) (simp add: is_digit_digit_char)
  qed
qed

lemma pad2_digits:
  assumes "n < 100"
  shows "length (padStart 2 (CHR ''0'') (digits n)) = 2"
    and "list_all is_digit (padStart 2 (CHR ''0'') (digits n))"
    and "dec_val (padStart 2 (CHR ''0'') (digits n)) = n"
  using assms by (simp_all add: pad2 is_digit_digit_char of_char_digit_char)

lemma dateStr_Number:
  assumes "0 \<le> YearFromTime t"
  shows "dateStr (Number t) =
     digits (nat (YearFromTime t)) @ CHR ''-'' #
     padStart 2 (CHR ''0'') (digits (nat (MonthFromTime t + 1))) @ CHR ''-'' #
     padStart 2 (CHR ''0'') (digits (nat (DateFromTime t)))"
  using assms month_date_range [of t] by (simp add: dateStr_def)

lemma dateStr_valid:
  assumes "1000 \<le> YearFromTime t" and "YearFromTime t \<le> 9999"
  shows "dateRegex_test (dateStr (Number t))"
    and "ymd_fields (dateStr (Number t)) = utc_day t"
proof -
  let ?Y = "digits (nat (YearFromTime t))"
  let ?M = "padStart 2 (CHR ''0'') (digits (nat (MonthFromTime t + 1)))"
  let ?D = "padStart 2 (CHR ''0'') (digits (nat (DateFromTime t)))"
  note r = month_date_range [of t]
  have s: "dateStr (Number t) = ?Y @ CHR ''-'' # ?M @ CHR ''-'' # ?D"
    using assms by (intro dateStr_Number) simp
  have lY: "length ?Y = 4"
    using assms by (simp add: digits_4)
  have mlt: "nat (MonthFromTime t + 1) < 100" and dlt: "nat (DateFromTime t) < 100"
    using r by linarith+
  have M: "length ?M = 2" "list_all is_digit ?M" "dec_val ?M = nat (MonthFromTime t + 1)"
    by (rule pad2_digits [OF mlt])+
  have D: "length ?D = 2" "list_all is_digit ?D" "dec_val ?D = nat (DateFromTime t)"
    by (rule pad2_digits [OF dlt])+
  obtain y1 y2 y3 y4 where Y: "?Y = [y1, y2, y3, y4]"
    using lY by (auto simp: length_Suc_conv numeral_eq_Suc)
  obtain m1 m2 where M': "?M = [m1, m2]"
    using M(1) by (auto simp: length_Suc_conv numeral_eq_Suc)
  obtain d1 d2 where D': "?D = [d1, d2]"
    using D(1) by (auto simp: length_Suc_conv numeral_eq_Suc)
  have "list_all is_digit ?Y" by (rule digits_all_digit)
  then show "dateRegex_test (dateStr (Number t))"
    using M(2) D(2) unfolding s Y M' D' by simp
  show "ymd_fields (dateStr (Number t)) = utc_day t"
    unfolding s using lY M D r assms
    by (simp add: ymd_fields_form dec_val_digits utc_day_def)
qed

lemma dateStr_NaN: "dateStr NaN = ''NaN-NaN-NaN''"
  by (simp add: dateStr_def padStart_def)

lemma NaN_not_validated:
  assumes "dateRegex_test d"
  shows "''NaN-NaN-NaN'' \<noteq> d" and "less_string d ''NaN-NaN-NaN''"
proof -
  from assms obtain c cs where d: "d = c # cs" and c: "is_digit c"
    by (auto elim!: dateRegex_test.elims)
  have "(of_char c :: nat) < of_char (CHR ''N'')"
    using c by (simp add: is_digit_def)
  then show "less_string d ''NaN-NaN-NaN''"
    unfolding d by simp
  from c show "''NaN-NaN-NaN'' \<noteq> d"
    unfolding d by (auto simp: is_digit_def)
qed

lemma matchesDateFilter_NaN:
  "validated (target dateFilter) \<Longrightarrow> \<not> matchesDateFilter dateFilter NaN"
  by (cases "target dateFilter")
     (auto simp: matchesDateFilter_def dateStr_NaN less_eq_string_def dest: NaN_not_validated)

lemma day_less_eq_iff: "day_less_eq a b = (\<not> day_less b a)"
  by (cases a; cases b) (auto simp: day_less_eq_def)

lemma matchesDateFilter_Number:
  assumes "validated (target dateFilter)"
    and "1000 \<le> YearFromTime t" and "YearFromTime t \<le> 9999"
  shows "matchesDateFilter dateFilter (Number t) = on_target_day (target dateFilter) t"
proof (cases "target dateFilter")
  case (Single date)
  with assms(1) have "dateRegex_test date" by simp
  then show ?thesis
    using dateStr_valid [OF assms(2,3)] valid_dates_compare(2) [of "dateStr (Number t)" date]
    by (simp add: matchesDateFilter_def on_target_day_def Single)
next
  case (Range startDate endDate)
  with assms(1) have "dateRegex_test startDate" and "dateRegex_test endDate" by simp_all
  then show ?thesis
    using dateStr_valid [OF assms(2,3)]
      valid_dates_compare(1) [of "dateStr (Number t)" startDate]
      valid_dates_compare(1) [of endDate "dateStr (Number t)"]
    by (simp add: matchesDateFilter_def on_target_day_def Range day_less_eq_iff
        greater_eq_string_def less_eq_string_def)
qed

lemma validateDate_Inr: "validateDate s = Inr d \<Longrightarrow> dateRegex_test s"
  by (simp add: validateDate_def split: if_splits)

lemma parseArguments_validated:
  "parseArguments argv = Inr dateFilter \<Longrightarrow> validated (target dateFilter)"
  unfolding parseArguments_def Let_def
  by (auto split: if_splits sum.splits dest: validateDate_Inr)

section \<open>The date filter\<close>

lemmas calendar_eval = YearFromTime_def MonthFromTime_def DateFromTime_def DayWithinYear_def
  year_and_day_def Day_def msPerDay_def year_from.simps DaysInYear_def month_lengths_def
  utc_def MakeDay_def DayFromYear_def utc_day_def

lemmas string_eval = dateStr_def padStart_def digits.simps digit_char_def char_of_def
  greater_eq_string_def less_eq_string_def ymd_fields_def bit_0 is_digit_def

lemmas arguments_eval = parseArguments_def validateDate_def Date_of_string_def Let_def
  filter_of_def

lemma filterByDate_kept:
  assumes "validated (target dateFilter)" and "list_all four_digit_year entities"
  shows "fst (filterByDate dateFilter entities entityType) =
         filter (created_on_target (target dateFilter)) entities"
proof -
  have "(case createdAt entity of None \<Rightarrow> False
          | Some created \<Rightarrow> matchesDateFilter dateFilter created) =
        created_on_target (target dateFilter) entity"
    if "four_digit_year entity" for entity
  proof (cases "createdAt entity")
    case None
    then show ?thesis by (simp add: created_on_target_def)
  next
    case (Some created)
    show ?thesis
    proof (cases created)
      case NaN
      with Some assms(1) show ?thesis
        by (simp add: created_on_target_def matchesDateFilter_NaN)
    next
      case (Number t)
      with Some that assms(1) show ?thesis
        by (simp add: created_on_target_def four_digit_year_def matchesDateFilter_Number)
    qed
  qed
  then show ?thesis
    using assms(2) unfolding filterByDate_def fst_conv
    by (intro filter_cong) (auto simp: list_all_iff)
qed

lemma examples_validated:
  "validated (Single ''2005-12-17'')"
  "validated (Range ''2005-12-17'' ''2005-12-25'')"
  by (simp_all add: is_digit_def)

lemma examples_years:
  "1000 \<le> YearFromTime (utc 2005 12 17 23 59 59) \<and> YearFromTime (utc 2005 12 17 23 59 59) \<le> 9999"
  "1000 \<le> YearFromTime (utc 2005 12 18 0 0 0) \<and> YearFromTime (utc 2005 12 18 0 0 0) \<le> 9999"
  "1000 \<le> YearFromTime (utc 2005 12 16 23 59 59) \<and> YearFromTime (utc 2005 12 16 23 59 59) \<le> 9999"
  "1000 \<le> YearFromTime (utc 2005 12 17 0 0 0) \<and> YearFromTime (utc 2005 12 17 0 0 0) \<le> 9999"
  "1000 \<le> YearFromTime (utc 2005 12 25 23 59 59) \<and> YearFromTime (utc 2005 12 25 23 59 59) \<le> 9999"
  "1000 \<le> YearFromTime (utc 2005 12 26 0 0 0) \<and> YearFromTime (utc 2005 12 26 0 0 0) \<le> 9999"
  by (simp_all add: calendar_eval)

lemma examples_days:
  "on_target_day (Single ''2005-12-17'') (utc 2005 12 17 23 59 59)"
  "\<not> on_target_day (Single ''2005-12-17'') (utc 2005 12 18 0 0 0)"
  "\<not> on_target_day (Range ''2005-12-17'' ''2005-12-25'') (utc 2005 12 16 23 59 59)"
  "on_target_day (Range ''2005-12-17'' ''2005-12-25'') (utc 2005 12 17 0 0 0)"
  "on_target_day (Range ''2005-12-17'' ''2005-12-25'') (utc 2005 12 25 23 59 59)"
  "\<not> on_target_day (Range ''2005-12-17'' ''2005-12-25'') (utc 2005 12 26 0 0 0)"
  by (simp_all add: calendar_eval string_eval on_target_day_def day_less_eq_def)

text \<open>
  Where the year of the creation day has four digits, the filter is right. For a filter that
  \<open>parseArguments\<close> has accepted and entities created in the UTC years 1000 to 9999,
  \<open>filterByDate\<close> keeps exactly the entities whose creation instant, truncated to its UTC
  calendar day, is the target day (single mode) or lies in the inclusive range (range mode),
  in the order of the input. With the single day 2005-12-17, 2005-12-17T23:59:59Z matches and
  2005-12-18T00:00:00Z does not; with the range 2005-12-17 to 2005-12-25, the first instant
  of 2005-12-17 and the last of 2005-12-25 match, the last of 2005-12-16 and the first of
  2005-12-26 do not.
\<close>

lemma date_filter_selects_target_days:
  assumes "parseArguments argv = Inr dateFilter"
    and "list_all four_digit_year entities"
  shows "fst (filterByDate dateFilter entities entityType) =
           filter (created_on_target (target dateFilter)) entities
    \<and> matchesDateFilter (dateFilter\<lparr>target := Single ''2005-12-17''\<rparr>)
         (Number (utc 2005 12 17 23 59 59))
    \<and> \<not> matchesDateFilter (dateFilter\<lparr>target := Single ''2005-12-17''\<rparr>)
         (Number (utc 2005 12 18 0 0 0))
    \<and> \<not> matchesDateFilter (dateFilter\<lparr>target := Range ''2005-12-17'' ''2005-12-25''\<rparr>)
         (Number (utc 2005 12 16 23 59 59))
    \<and> matchesDateFilter (dateFilter\<lparr>target := Range ''2005-12-17'' ''2005-12-25''\<rparr>)
         (Number (utc 2005 12 17 0 0 0))
    \<and> matchesDateFilter (dateFilter\<lparr>target := Range ''2005-12-17'' ''2005-12-25''\<rparr>)
         (Number (utc 2005 12 25 23 59 59))
    \<and> \<not> matchesDateFilter (dateFilter\<lparr>target := Range ''2005-12-17'' ''2005-12-25''\<rparr>)
         (Number (utc 2005 12 26 0 0 0))"
proof -
  let ?single = "dateFilter\<lparr>target := Single ''2005-12-17''\<rparr>"
  let ?range = "dateFilter\<lparr>target := Range ''2005-12-17'' ''2005-12-25''\<rparr>"
  have kept: "fst (filterByDate dateFilter entities entityType) =
      filter (created_on_target (target dateFilter)) entities"
    using assms by (intro filterByDate_kept parseArguments_validated)
  have s: "matchesDateFilter ?single (Number t) = on_target_day (Single ''2005-12-17'') t"
    if "1000 \<le> YearFromTime t \<and> YearFromTime t \<le> 9999" for t
    using that matchesDateFilter_Number [of ?single t] examples_validated(1) by simp
  have r: "matchesDateFilter ?range (Number t) = on_target_day (Range ''2005-12-17'' ''2005-12-25'') t"
    if "1000 \<le> YearFromTime t \<and> YearFromTime t \<le> 9999" for t
    using that matchesDateFilter_Number [of ?range t] examples_validated(2) by simp
  show ?thesis
    using kept examples_days
    by (simp only: s [OF examples_years(1)] s [OF examples_years(2)] r [OF examples_years(3)]
        r [OF examples_years(4)] r [OF examples_years(5)] r [OF examples_years(6)])
       simp
qed

lemma date_filter_selects_target_days_witness:
  "parseArguments [''2005-12-17'', ''2005-12-25''] = Inr (filter_of (Range ''2005-12-17'' ''2005-12-25''))
   \<and> list_all four_digit_year
        [org ''a'' (Some (Number (utc 2005 12 17 23 59 59))),
         org ''b'' (Some (Number (utc 2005 12 26 0 0 0))),
         org ''c'' None, org ''d'' (Some NaN)]
   \<and> fst (filterByDate (filter_of (Range ''2005-12-17'' ''2005-12-25''))
        [org ''a'' (Some (Number (utc 2005 12 17 23 59 59))),
         org ''b'' (Some (Number (utc 2005 12 26 0 0 0))),
         org ''c'' None, org ''d'' (Some NaN)] Organization)
      = [org ''a'' (Some (Number (utc 2005 12 17 23 59 59)))]"
proof -
  have p: "parseArguments [''2005-12-17'', ''2005-12-25''] =
      Inr (filter_of (Range ''2005-12-17'' ''2005-12-25''))"
    by (simp add: arguments_eval calendar_eval string_eval)
  have f: "list_all four_digit_year
        [org ''a'' (Some (Number (utc 2005 12 17 23 59 59))),
         org ''b'' (Some (Number (utc 2005 12 26 0 0 0))),
         org ''c'' None, org ''d'' (Some NaN)]"
    by (simp add: four_digit_year_def org_def calendar_eval)
  show ?thesis
    using p f date_filter_selects_target_days [OF p f, of Organization]
    by (simp add: created_on_target_def on_target_day_def org_def filter_of_def day_less_eq_def
        calendar_eval string_eval)
qed

text \<open>
  C2 (date filter). The filter does not select exactly the entities created on the target
  days. \<open>matchesDateFilter\<close> writes the day of creation with the month and the day of the
  month padded to two digits but the year as it comes, and compares that string with targets
  whose year has four digits. An organization created on 0800-06-15 is not selected by the
  single day \<open>0800-06-15\<close>, which \<open>parseArguments\<close> accepts (its day is written
  \<open>800-06-15\<close>); and one created on 10000-01-01 is selected by the range 1000-01-01 to
  2005-12-25.
\<close>

theorem date_filter_year_width_counterexample:
  "parseArguments [''0800-06-15''] = Inr (filter_of (Single ''0800-06-15''))
   \<and> created_on_target (Single ''0800-06-15'') (org ''old'' (Some (Number (utc 800 6 15 12 0 0))))
   \<and> fst (filterByDate (filter_of (Single ''0800-06-15''))
        [org ''old'' (Some (Number (utc 800 6 15 12 0 0)))] Organization) = []
   \<and> parseArguments [''1000-01-01'', ''2005-12-25''] = Inr (filter_of (Range ''1000-01-01'' ''2005-12-25''))
   \<and> \<not> created_on_target (Range ''1000-01-01'' ''2005-12-25'')
        (org ''far'' (Some (Number (utc 10000 1 1 0 0 0))))
   \<and> fst (filterByDate (filter_of (Range ''1000-01-01'' ''2005-12-25''))
        [org ''far'' (Some (Number (utc 10000 1 1 0 0 0)))] Organization)
      = [org ''far'' (Some (Number (utc 10000 1 1 0 0 0)))]"
proof -
  have a: "parseArguments [''0800-06-15''] = Inr (filter_of (Single ''0800-06-15''))"
    by (simp add: arguments_eval calendar_eval string_eval)
  have b: "created_on_target (Single ''0800-06-15'') (org ''old'' (Some (Number (utc 800 6 15 12 0 0))))"
    by (simp add: created_on_target_def on_target_day_def org_def calendar_eval string_eval)
  have c: "dateStr (Number (utc 800 6 15 12 0 0)) = ''800-06-15''"
    by (simp add: calendar_eval string_eval)
  have d: "parseArguments [''1000-01-01'', ''2005-12-25''] =
      Inr (filter_of (Range ''1000-01-01'' ''2005-12-25''))"
    by (simp add: arguments_eval calendar_eval string_eval)
  have e: "\<not> created_on_target (Range ''1000-01-01'' ''2005-12-25'')
        (org ''far'' (Some (Number (utc 10000 1 1 0 0 0))))"
    by (simp add: created_on_target_def on_target_day_def org_def day_less_eq_def
        calendar_eval string_eval)
  have f: "dateStr (Number (utc 10000 1 1 0 0 0)) = ''10000-01-01''"
    by (simp add: calendar_eval string_eval)
  show ?thesis
    using a b d e
    by (simp add: filterByDate_def matchesDateFilter_def org_def filter_of_def c f
        greater_eq_string_def less_eq_string_def)
qed

text \<open>
  C10 (unparseable creation time). The day string of an invalid date is \<open>NaN-NaN-NaN\<close>; no
  filter that \<open>parseArguments\<close> has accepted matches it, in either mode. An entity whose
  \<open>createdAt\<close> is present but does not parse changes neither the entities kept nor the
  warnings printed, wherever it stands in the list, while an entity without \<open>createdAt\<close>
  is dropped with a warning.
\<close>

theorem unparseable_createdAt_excluded_silently:
  assumes "parseArguments argv = Inr dateFilter"
    and "createdAt entity = Some NaN" and "createdAt missing = None"
  shows "dateStr NaN = ''NaN-NaN-NaN''
    \<and> \<not> matchesDateFilter dateFilter NaN
    \<and> filterByDate dateFilter (pre @ [entity] @ post) entityType =
        filterByDate dateFilter (pre @ post) entityType
    \<and> filterByDate dateFilter [entity] entityType = ([], [])
    \<and> filterByDate dateFilter [missing] entityType =
        ([], [NoCreatedAt entityType (entity_id missing)])"
proof -
  have n: "\<not> matchesDateFilter dateFilter NaN"
    using assms(1) by (intro matchesDateFilter_NaN parseArguments_validated)
  with assms(2,3) show ?thesis
    by (simp add: filterByDate_def dateStr_NaN)
qed

theorem unparseable_createdAt_excluded_silently_witness:
  "parseArguments [''--users'', ''2005-12-17''] = Inr ((filter_of (Single ''2005-12-17'')) \<lparr>deleteUsers := True\<rparr>)
   \<and> createdAt (org ''d'' (Some NaN)) = Some NaN
   \<and> createdAt (org ''c'' None) = None
   \<and> filterByDate ((filter_of (Single ''2005-12-17'')) \<lparr>deleteUsers := True\<rparr>)
        [org ''a'' (Some (Number (utc 2005 12 17 23 59 59))), org ''d'' (Some NaN), org ''c'' None] User
      = filterByDate ((filter_of (Single ''2005-12-17'')) \<lparr>deleteUsers := True\<rparr>)
        [org ''a'' (Some (Number (utc 2005 12 17 23 59 59))), org ''c'' None] User
   \<and> filterByDate ((filter_of (Single ''2005-12-17'')) \<lparr>deleteUsers := True\<rparr>)
        [org ''d'' (Some NaN)] User = ([], [])
   \<and> filterByDate ((filter_of (Single ''2005-12-17'')) \<lparr>deleteUsers := True\<rparr>)
        [org ''c'' None] User = ([], [NoCreatedAt User ''c''])"
proof -
  have p: "parseArguments [''--users'', ''2005-12-17''] =
      Inr ((filter_of (Single ''2005-12-17'')) \<lparr>deleteUsers := True\<rparr>)"
    by (simp add: arguments_eval calendar_eval string_eval)
  have d: "createdAt (org ''d'' (Some NaN)) = Some NaN" and c: "createdAt (org ''c'' None) = None"
    by (simp_all add: org_def)
  show ?thesis
    using p d c
      unparseable_createdAt_excluded_silently [OF p d c,
        of "[org ''a'' (Some (Number (utc 2005 12 17 23 59 59)))]" "[org ''c'' None]" User]
    by (simp add: org_def)
qed

section \<open>The bounded-concurrency deleter\<close>

subsection \<open>What a settling task changes\<close>

lemma settle_fields [simp]:
  "processingQueue (settle deleteFunction entityType t s) = remove1 t (processingQueue s)"
  "remaining (settle deleteFunction entityType t s) = remaining s"
  "control (settle deleteFunction entityType t s) =
     (if control s = Waiting then Resumed else control s)"
  by (cases t; cases "executeWithRateLimit (deleteFunction (fst t)) 3";
      cases "snd (executeWithRateLimit (deleteFunction (fst t)) 3)";
      simp add: settle_def)+

lemma settle_outcomes [simp]:
  "successful_so_far (settle deleteFunction entityType t s) =
     successful_so_far s @
       (case task_error deleteFunction t of None \<Rightarrow> [success_of entityType t] | Some err \<Rightarrow> [])"
  "failed_so_far (settle deleteFunction entityType t s) =
     failed_so_far s @
       (case task_error deleteFunction t of None \<Rightarrow> [] | Some err \<Rightarrow> [failure_of entityType t err])"
  by (cases t; cases "executeWithRateLimit (deleteFunction (fst t)) 3";
      cases "snd (executeWithRateLimit (deleteFunction (fst t)) 3)";
      simp add: settle_def task_error_def success_of_def failure_of_def)+

lemma launch_fields [simp]:
  "processingQueue (launch t ts s) = processingQueue s @ [t]"
  "remaining (launch t ts s) = ts"
  "control (launch t ts s) = Loop"
  "successful_so_far (launch t ts s) = successful_so_far s"
  "failed_so_far (launch t ts s) = failed_so_far s"
  by (simp_all add: launch_def)

lemma find_in_queue: "find P xs = Some t \<Longrightarrow> t \<in> set xs"
  by (auto simp: find_Some_iff)

subsection \<open>The invariants hold along every schedule\<close>

lemma step_within_limit:
  assumes "within_limit L s" and "step L deleteFunction entityType ev s = Some s'"
  shows "within_limit L s'"
proof (cases ev)
  case MainRuns
  with assms show ?thesis
    by (auto simp: within_limit_def split: control.splits list.splits if_splits)
next
  case (TaskSettles i)
  with assms(2) obtain t where t: "t \<in> set (processingQueue s)"
    and s': "s' = settle deleteFunction entityType t s"
    by (auto split: option.splits dest: find_in_queue)
  from t have "length (remove1 t (processingQueue s)) < length (processingQueue s)"
    by (simp add: length_remove1) (cases "processingQueue s"; simp)
  with assms(1) show ?thesis
    by (auto simp: within_limit_def s')
qed

lemma step_control_ok:
  assumes "control_ok s" and "step L deleteFunction entityType ev s = Some s'"
  shows "control_ok s'"
proof (cases ev)
  case MainRuns
  with assms show ?thesis
    by (auto simp: control_ok_def split: control.splits list.splits if_splits)
next
  case (TaskSettles i)
  with assms(2) obtain t where "s' = settle deleteFunction entityType t s"
    by (auto split: option.splits)
  with assms(1) show ?thesis
    by (auto simp: control_ok_def)
qed

lemma map_filter_append: "List.map_filter f (xs @ ys) = List.map_filter f xs @ List.map_filter f ys"
  by (simp add: List.map_filter_def)

lemma mset_map_filter_remove1:
  "t \<in> set xs \<Longrightarrow>
   mset (List.map_filter f xs) =
     mset (List.map_filter f (remove1 t xs)) + (case f t of None \<Rightarrow> {#} | Some y \<Rightarrow> {#y#})"
  by (induction xs) (auto simp: List.map_filter_simps split: option.splits)

lemma step_accounted:
  assumes "accounted deleteFunction entityType ts s"
    and "step L deleteFunction entityType ev s = Some s'"
  shows "accounted deleteFunction entityType ts s'"
proof (cases ev)
  case MainRuns
  with assms show ?thesis
    by (auto simp: accounted_def split: control.splits list.splits if_splits)
next
  case (TaskSettles i)
  with assms(2) obtain t where t: "t \<in> set (processingQueue s)"
    and s': "s' = settle deleteFunction entityType t s"
    by (auto split: option.splits dest: find_in_queue)
  note r1 = mset_map_filter_remove1 [OF t]
  from assms(1) show ?thesis
    unfolding accounted_def s' own_successes_def own_failures_def
    by (cases "task_error deleteFunction t")
       (simp_all add: map_filter_append r1 [where f = "\<lambda>t. case task_error deleteFunction t of
                             None \<Rightarrow> Some (success_of entityType t)
                           | Some err \<Rightarrow> None"]
           r1 [where f = "\<lambda>t. map_option (failure_of entityType t) (task_error deleteFunction t)"])
qed

lemma run_within_limit:
  "within_limit L s \<Longrightarrow> run L deleteFunction entityType schedule s = Some s' \<Longrightarrow>
   within_limit L s'"
proof (induction schedule arbitrary: s)
  case Nil
  then show ?case by simp
next
  case (Cons ev evs)
  from Cons.prems(2) obtain s1 where s1: "step L deleteFunction entityType ev s = Some s1"
    and r: "run L deleteFunction entityType evs s1 = Some s'"
    by (auto split: option.splits)
  show ?case
    using Cons.IH [OF step_within_limit [OF Cons.prems(1) s1] r] .
qed

lemma run_accounted:
  "control_ok s \<Longrightarrow> accounted deleteFunction entityType ts s \<Longrightarrow>
   run L deleteFunction entityType schedule s = Some s' \<Longrightarrow>
   control_ok s' \<and> accounted deleteFunction entityType ts s'"
proof (induction schedule arbitrary: s)
  case Nil
  then show ?case by simp
next
  case (Cons ev evs)
  from Cons.prems(3) obtain s1 where s1: "step L deleteFunction entityType ev s = Some s1"
    and r: "run L deleteFunction entityType evs s1 = Some s'"
    by (auto split: option.splits)
  show ?case
    using Cons.IH [OF step_control_ok [OF Cons.prems(1) s1] step_accounted [OF Cons.prems(2) s1] r] .
qed

lemma initial_invariants:
  "0 \<le> L \<Longrightarrow> within_limit L (initial entities)"
  "control_ok (initial entities)"
  "accounted deleteFunction entityType (zip [0..<length entities] entities) (initial entities)"
  by (simp_all add: within_limit_def control_ok_def accounted_def initial_def)

lemma own_outcomes_length:
  "length (own_successes deleteFunction entityType ts) +
   length (own_failures deleteFunction entityType ts) = length ts"
  by (induction ts)
     (auto simp: own_successes_def own_failures_def List.map_filter_simps split: option.splits)

subsection \<open>A schedule that completes\<close>

lemma run_append:
  "run L deleteFunction entityType (a @ b) s =
     (case run L deleteFunction entityType a s of
        None \<Rightarrow> None
      | Some s' \<Rightarrow> run L deleteFunction entityType b s')"
  by (induction a arbitrary: s) (auto split: option.splits)

lemma run_one_by_one_tasks:
  assumes "0 < L"
  shows "control s = Loop \<Longrightarrow> processingQueue s = [] \<Longrightarrow> remaining s = ts \<Longrightarrow>
    \<exists>s'. run L deleteFunction entityType
            (concat (map (\<lambda>t. [MainRuns, TaskSettles (fst t)]) ts) @ [MainRuns, MainRuns]) s = Some s'
          \<and> control s' = Done"
proof (induction ts arbitrary: s)
  case Nil
  then show ?case by simp
next
  case (Cons t ts)
  let ?s1 = "launch t ts s"
  let ?s2 = "settle deleteFunction entityType t ?s1"
  have 1: "step L deleteFunction entityType MainRuns s = Some ?s1"
    using Cons.prems assms by simp
  have 2: "step L deleteFunction entityType (TaskSettles (fst t)) ?s1 = Some ?s2"
    using Cons.prems by simp
  have "\<exists>s'. run L deleteFunction entityType
            (concat (map (\<lambda>t. [MainRuns, TaskSettles (fst t)]) ts) @ [MainRuns, MainRuns]) ?s2 = Some s'
          \<and> control s' = Done"
    using Cons.prems by (intro Cons.IH) simp_all
  then show ?case
    using 1 2 by simp
qed

lemma map_fst_zip_fun:
  "length xs = length ys \<Longrightarrow> map (\<lambda>t. g (fst t)) (zip xs ys) = map g xs"
  by (induction xs ys rule: list_induct2) simp_all

lemma one_by_one_completes:
  assumes "0 < L"
  shows "\<exists>s'. run L deleteFunction entityType (one_by_one (length entities)) (initial entities) = Some s'
          \<and> control s' = Done"
proof -
  have "map (\<lambda>i. [MainRuns, TaskSettles i]) [0..<length entities] =
        map (\<lambda>t. [MainRuns, TaskSettles (fst t)]) (zip [0..<length entities] entities)"
    by (rule map_fst_zip_fun [symmetric]) simp
  then have "one_by_one (length entities) =
      concat (map (\<lambda>t. [MainRuns, TaskSettles (fst t)]) (zip [0..<length entities] entities))
        @ [MainRuns, MainRuns]"
    by (simp add: one_by_one_def)
  then show ?thesis
    using run_one_by_one_tasks [OF assms, of "initial entities" "zip [0..<length entities] entities"]
    by (simp add: initial_def)
qed

subsection \<open>What a completed call returns\<close>

lemma completed_call:
  assumes "run L deleteFunction entityType schedule (initial entities) = Some s"
    and "control s = Done"
  shows "mset (successful_so_far s) =
           mset (own_successes deleteFunction entityType (zip [0..<length entities] entities))"
    and "mset (failed_so_far s) =
           mset (own_failures deleteFunction entityType (zip [0..<length entities] entities))"
proof -
  let ?ts = "zip [0..<length entities] entities"
  have "control_ok s \<and> accounted deleteFunction entityType ?ts s"
    using run_accounted [OF initial_invariants(2,3) assms(1)] .
  with assms(2) show
    "mset (successful_so_far s) = mset (own_successes deleteFunction entityType ?ts)"
    "mset (failed_so_far s) = mset (own_failures deleteFunction entityType ?ts)"
    by (auto simp: control_ok_def accounted_def own_successes_def own_failures_def)
qed

lemma returned_results:
  assumes "\<not> dryRun dateFilter"
    and "deleteEntitiesConcurrently L dateFilter entities deleteFunction entityType schedule
           = Some (r, es)"
  shows "mset (successful r) =
           mset (own_successes deleteFunction entityType (zip [0..<length entities] entities))"
    and "mset (failed r) =
           mset (own_failures deleteFunction entityType (zip [0..<length entities] entities))"
proof -
  show "mset (successful r) =
           mset (own_successes deleteFunction entityType (zip [0..<length entities] entities))"
  proof (cases "entities = []")
    case True
    with assms show ?thesis
      by (auto simp: deleteEntitiesConcurrently_def own_successes_def)
  next
    case False
    with assms obtain s where
      "run L deleteFunction entityType schedule (initial entities) = Some s"
      "control s = Done" "r = \<lparr>successful = successful_so_far s, failed = failed_so_far s\<rparr>"
      by (auto simp: deleteEntitiesConcurrently_def split: option.splits if_splits)
    then show ?thesis using completed_call(1) by simp
  qed
  show "mset (failed r) =
           mset (own_failures deleteFunction entityType (zip [0..<length entities] entities))"
  proof (cases "entities = []")
    case True
    with assms show ?thesis
      by (auto simp: deleteEntitiesConcurrently_def own_failures_def)
  next
    case False
    with assms obtain s where
      "run L deleteFunction entityType schedule (initial entities) = Some s"
      "control s = Done" "r = \<lparr>successful = successful_so_far s, failed = failed_so_far s\<rparr>"
      by (auto simp: deleteEntitiesConcurrently_def split: option.splits if_splits)
    then show ?thesis using completed_call(2) by simp
  qed
qed

lemma one_by_one_returns:
  assumes "0 < L"
  shows "deleteEntitiesConcurrently L dateFilter entities deleteFunction entityType
           (one_by_one (length entities)) \<noteq> None"
  using one_by_one_completes [OF assms, of deleteFunction entityType entities]
  by (auto simp: deleteEntitiesConcurrently_def)

lemma attempts_always_resolved:
  "(\<forall>k. call k = Resolved v) \<Longrightarrow> snd (executeWithRateLimit call 3) = Returned v"
  by (simp add: executeWithRateLimit_def attempts.simps)

lemma attempts_always_rejected:
  "(\<forall>k. call k = Rejected err) \<Longrightarrow> snd (executeWithRateLimit call 3) = Threw err"
  by (simp add: executeWithRateLimit_def attempts.simps)

lemma task_error_cases:
  "(\<forall>k. deleteFunction (fst t) k = Resolved ()) \<Longrightarrow> task_error deleteFunction t = None"
  "(\<forall>k. deleteFunction (fst t) k = Rejected err) \<Longrightarrow> task_error deleteFunction t = Some err"
  by (simp_all add: task_error_def attempts_always_resolved attempts_always_rejected)

lemma three_entities:
  assumes "\<forall>k. deleteFunction 0 k = Resolved ()"
    and "\<forall>k. deleteFunction 1 k = Rejected err"
    and "\<forall>k. deleteFunction 2 k = Resolved ()"
  shows "own_successes deleteFunction entityType (zip [0..<length [A, B, C]] [A, B, C]) =
           [success_of entityType (0, A), success_of entityType (2, C)]"
    and "own_failures deleteFunction entityType (zip [0..<length [A, B, C]] [A, B, C]) =
           [failure_of entityType (1, B) err]"
proof -
  have z: "zip [0..<length [A, B, C]] [A, B, C] = [(0, A), (1, B), (2, C)]"
    by (simp add: upt_rec)
  have e: "task_error deleteFunction (0, A) = None" "task_error deleteFunction (Suc 0, B) = Some err"
    "task_error deleteFunction (2, C) = None"
    using assms by (simp_all add: task_error_cases)
  show "own_successes deleteFunction entityType (zip [0..<length [A, B, C]] [A, B, C]) =
           [success_of entityType (0, A), success_of entityType (2, C)]"
    unfolding z by (simp add: own_successes_def e)
  show "own_failures deleteFunction entityType (zip [0..<length [A, B, C]] [A, B, C]) =
           [failure_of entityType (1, B) err]"
    unfolding z by (simp add: own_failures_def e)
qed

lemma own_outcomes_ids:
  "image_mset outcome_id (mset (own_successes deleteFunction entityType ts)) +
   image_mset outcome_id (mset (own_failures deleteFunction entityType ts)) =
   image_mset (\<lambda>t. entity_id (snd t)) (mset ts)"
  by (induction ts)
     (auto simp: own_successes_def own_failures_def success_of_def
        failure_of_def split: option.splits)

subsection \<open>No schedule blocks, and every schedule ends\<close>

lemma step_waits_at_limit:
  assumes "step L deleteFunction entityType ev s = Some s'"
  shows "waits_at_limit L s'"
proof (cases ev)
  case MainRuns
  with assms show ?thesis
    by (auto simp: waits_at_limit_def split: control.splits list.splits if_splits)
next
  case (TaskSettles i)
  with assms obtain t where "s' = settle deleteFunction entityType t s"
    by (auto split: option.splits)
  then show ?thesis
    by (simp add: waits_at_limit_def)
qed

lemma run_snoc:
  "run L deleteFunction entityType (evs @ [ev]) s = Some s' \<Longrightarrow>
   \<exists>s1. run L deleteFunction entityType evs s = Some s1 \<and>
        step L deleteFunction entityType ev s1 = Some s'"
  by (auto simp: run_append split: option.splits)

lemma reachable_waits_at_limit:
  assumes "run L deleteFunction entityType schedule (initial entities) = Some s"
  shows "waits_at_limit L s"
proof (cases schedule rule: rev_cases)
  case Nil
  with assms have "s = initial entities" by simp
  then show ?thesis by (simp add: waits_at_limit_def initial_def)
next
  case (snoc evs ev)
  with assms run_snoc [of L deleteFunction entityType evs ev "initial entities" s]
  show ?thesis by (auto intro: step_waits_at_limit)
qed

lemma never_blocked:
  assumes "0 < L"
    and "run L deleteFunction entityType schedule (initial entities) = Some s"
    and "control s \<noteq> Done"
  shows "\<exists>ev s'. step L deleteFunction entityType ev s = Some s'"
proof -
  have c: "control_ok s"
    using run_accounted [OF initial_invariants(2,3) assms(2)] by simp
  have w: "waits_at_limit L s"
    using reachable_waits_at_limit [OF assms(2)] .
  have settles: "\<exists>s'. step L deleteFunction entityType (TaskSettles (fst t)) s = Some s'"
    if "processingQueue s = t # ts" for t ts
    using that by simp
  show ?thesis
  proof (cases "control s")
    case Loop
    then have "\<exists>s'. step L deleteFunction entityType MainRuns s = Some s'"
      by (cases "remaining s") auto
    then show ?thesis by blast
  next
    case Waiting
    with w assms(1) have "processingQueue s \<noteq> []"
      by (auto simp: waits_at_limit_def)
    then obtain t ts where "processingQueue s = t # ts"
      by (cases "processingQueue s") auto
    from settles [OF this] show ?thesis by blast
  next
    case Resumed
    with c obtain t ts where "remaining s = t # ts"
      by (cases "remaining s") (auto simp: control_ok_def)
    with Resumed have "\<exists>s'. step L deleteFunction entityType MainRuns s = Some s'"
      by simp
    then show ?thesis by blast
  next
    case Draining
    show ?thesis
    proof (cases "processingQueue s")
      case Nil
      with Draining have "\<exists>s'. step L deleteFunction entityType MainRuns s = Some s'"
        by simp
      then show ?thesis by blast
    next
      case (Cons t ts)
      from settles [OF this] show ?thesis by blast
    qed
  next
    case Done
    with assms(3) show ?thesis by simp
  qed
qed

lemma step_decreases:
  assumes "step L deleteFunction entityType ev s = Some s'"
  shows "steps_left s' < steps_left s"
proof (cases ev)
  case MainRuns
  with assms show ?thesis
    by (auto simp: steps_left_def split: control.splits list.splits if_splits)
next
  case (TaskSettles i)
  with assms obtain t where t: "t \<in> set (processingQueue s)"
    and s': "s' = settle deleteFunction entityType t s"
    by (auto split: option.splits dest: find_in_queue)
  from t have "length (remove1 t (processingQueue s)) + 1 = length (processingQueue s)"
    by (simp add: length_remove1) (cases "processingQueue s"; simp)
  then show ?thesis
    unfolding s' steps_left_def by (cases "control s") auto
qed

lemma run_decreases:
  "run L deleteFunction entityType schedule s = Some s' \<Longrightarrow>
   steps_left s' + length schedule \<le> steps_left s"
proof (induction schedule arbitrary: s)
  case Nil
  then show ?case by simp
next
  case (Cons ev evs)
  from Cons.prems obtain s1 where s1: "step L deleteFunction entityType ev s = Some s1"
    and r: "run L deleteFunction entityType evs s1 = Some s'"
    by (auto split: option.splits)
  from Cons.IH [OF r] step_decreases [OF s1] show ?case by simp
qed

lemma schedule_bounded:
  assumes "run L deleteFunction entityType schedule (initial entities) = Some s"
  shows "length schedule \<le> 3 * length entities + 2"
  using run_decreases [OF assms] by (simp add: steps_left_def initial_def)

lemma can_complete:
  assumes "0 < L"
  shows "run L deleteFunction entityType evs (initial entities) = Some s \<Longrightarrow>
    \<exists>evs' s'. run L deleteFunction entityType (evs @ evs') (initial entities) = Some s'
      \<and> control s' = Done"
proof (induction "steps_left s" arbitrary: evs s rule: less_induct)
  case less
  show ?case
  proof (cases "control s = Done")
    case True
    with less.prems have "run L deleteFunction entityType (evs @ []) (initial entities) = Some s
        \<and> control s = Done"
      by simp
    then show ?thesis by blast
  next
    case False
    from never_blocked [OF assms less.prems False] obtain ev s1 where
      st: "step L deleteFunction entityType ev s = Some s1"
      by blast
    have r1: "run L deleteFunction entityType (evs @ [ev]) (initial entities) = Some s1"
      using less.prems st by (simp add: run_append)
    from less.hyps [OF step_decreases [OF st] r1] obtain evs' s' where
      "run L deleteFunction entityType ((evs @ [ev]) @ evs') (initial entities) = Some s'"
      "control s' = Done"
      by blast
    then have "run L deleteFunction entityType (evs @ (ev # evs')) (initial entities) = Some s'
        \<and> control s' = Done"
      by simp
    then show ?thesis by blast
  qed
qed

lemma can_return:
  assumes "0 < L"
    and "run L deleteFunction entityType evs (initial entities) = Some s"
  shows "\<exists>evs' r es. deleteEntitiesConcurrently L dateFilter entities deleteFunction
      entityType (evs @ evs') = Some (r, es)"
proof -
  from can_complete [OF assms] obtain evs' s' where
    "run L deleteFunction entityType (evs @ evs') (initial entities) = Some s'"
    "control s' = Done"
    by blast
  then have "\<exists>r es. deleteEntitiesConcurrently L dateFilter entities deleteFunction
      entityType (evs @ evs') = Some (r, es)"
    by (simp add: deleteEntitiesConcurrently_def)
  then show ?thesis by blast
qed

lemma map_snd_zip_fun:
  "length xs = length ys \<Longrightarrow> map (\<lambda>t. g (snd t)) (zip xs ys) = map g ys"
  by (induction xs ys rule: list_induct2) simp_all

lemma returned_ids:
  assumes "deleteEntitiesConcurrently L dateFilter entities deleteFunction entityType schedule
           = Some (r, es)"
  shows "image_mset outcome_id (mset (successful r)) + image_mset outcome_id (mset (failed r))
           = image_mset entity_id (mset entities)
    \<and> length (successful r) + length (failed r) = length entities"
proof -
  let ?ts = "zip [0..<length entities] entities"
  have ids: "image_mset outcome_id (mset (successful r)) + image_mset outcome_id (mset (failed r))
           = image_mset entity_id (mset entities)"
  proof (cases "dryRun dateFilter \<and> entities \<noteq> []")
    case True
    with assms have "r = \<lparr>successful =
                 map (\<lambda>e. \<lparr>outcome_id = entity_id e, outcome_name = dry_run_name entityType e,
                            outcome_createdAt = createdAt e\<rparr>) entities, failed = []\<rparr>"
      by (auto simp: deleteEntitiesConcurrently_def)
    then show ?thesis by (simp add: image_mset.compositionality o_def)
  next
    case False
    then have "mset (successful r) = mset (own_successes deleteFunction entityType ?ts)"
      and "mset (failed r) = mset (own_failures deleteFunction entityType ?ts)"
    proof -
      show "mset (successful r) = mset (own_successes deleteFunction entityType ?ts)"
      proof (cases "entities = []")
        case True
        with assms show ?thesis
          by (auto simp: deleteEntitiesConcurrently_def own_successes_def)
      next
        case ne: False
        with False have "\<not> dryRun dateFilter" by simp
        then show ?thesis using returned_results(1) [OF _ assms] by simp
      qed
      show "mset (failed r) = mset (own_failures deleteFunction entityType ?ts)"
      proof (cases "entities = []")
        case True
        with assms show ?thesis
          by (auto simp: deleteEntitiesConcurrently_def own_failures_def)
      next
        case ne: False
        with False have "\<not> dryRun dateFilter" by simp
        then show ?thesis using returned_results(2) [OF _ assms] by simp
      qed
    qed
    moreover have "image_mset (\<lambda>t. entity_id (snd t)) (mset ?ts) = image_mset entity_id (mset entities)"
    proof -
      have "map (\<lambda>t. entity_id (snd t)) ?ts = map entity_id entities"
        by (rule map_snd_zip_fun) simp
      then show ?thesis
        by (metis mset_map)
    qed
    ultimately show ?thesis
      using own_outcomes_ids [of deleteFunction entityType ?ts] by simp
  qed
  from ids have "size (image_mset outcome_id (mset (successful r)) +
      image_mset outcome_id (mset (failed r))) = size (image_mset entity_id (mset entities))"
    by simp
  then have "length (successful r) + length (failed r) = length entities"
    by simp
  with ids show ?thesis by simp
qed

section \<open>Claims about the deleter\<close>

lemmas deleter_eval = deleteEntitiesConcurrently_def initial_def settle_def launch_def
  executeWithRateLimit_def attempts.simps second_fails_def not_found_def task_name_def
  or_Unnamed_def truthy_def template_def dry_run_name_def org_def filter_of_def upt_rec
  one_by_one_def

text \<open>
  C3 (deletion isolation). A call that is not a dry run, with a positive limit, returns, and
  no failure changes what it returns for another entity. It returns: no state short of the
  \<open>return\<close> is blocked (the loop or some task can always take a step, whichever deletions
  have failed), no schedule is longer than three events for each entity and two more, and
  however far a call has come there are events that bring it to its \<open>return\<close>. And whenever
  it returns, the objects in \<open>successful\<close> are those of the entities whose own delete call
  the executor completes, and the objects in \<open>failed\<close> those of the entities whose own call
  it throws for, each with that error's message. For \<open>[A, B, C]\<close> where deleting \<open>B\<close>
  always fails and deleting \<open>A\<close> and \<open>C\<close> always succeeds, \<open>successful\<close> holds \<open>A\<close> and
  \<open>C\<close> and \<open>failed\<close> holds \<open>B\<close>.
\<close>

theorem deletion_isolation:
  assumes "\<not> dryRun dateFilter"
    and "0 < L"
  shows "(\<forall>evs s. run L deleteFunction entityType evs (initial entities) = Some s \<and>
                control s \<noteq> Done
          \<longrightarrow> (\<exists>ev s'. step L deleteFunction entityType ev s = Some s'))
    \<and> (\<forall>evs s. run L deleteFunction entityType evs (initial entities) = Some s
          \<longrightarrow> length evs \<le> 3 * length entities + 2)
    \<and> (\<forall>evs s. run L deleteFunction entityType evs (initial entities) = Some s
          \<longrightarrow> (\<exists>evs' r es. deleteEntitiesConcurrently L dateFilter entities deleteFunction
                              entityType (evs @ evs') = Some (r, es)))
    \<and> (\<forall>schedule r es.
          deleteEntitiesConcurrently L dateFilter entities deleteFunction entityType schedule
            = Some (r, es)
          \<longrightarrow> mset (successful r) =
                mset (own_successes deleteFunction entityType (zip [0..<length entities] entities))
            \<and> mset (failed r) =
                mset (own_failures deleteFunction entityType (zip [0..<length entities] entities)))
    \<and> (entities = [A, B, C] \<and> (\<forall>k. deleteFunction 0 k = Resolved ()) \<and>
         (\<forall>k. deleteFunction 1 k = Rejected err) \<and> (\<forall>k. deleteFunction 2 k = Resolved ())
        \<longrightarrow> (\<exists>schedule r es.
               deleteEntitiesConcurrently L dateFilter entities deleteFunction entityType schedule
                 = Some (r, es))
          \<and> (\<forall>schedule r es.
               deleteEntitiesConcurrently L dateFilter entities deleteFunction entityType schedule
                 = Some (r, es)
               \<longrightarrow> mset (successful r) =
                     {#success_of entityType (0, A), success_of entityType (2, C)#}
                 \<and> mset (failed r) = {#failure_of entityType (1, B) err#}))"
proof -
  have free: "\<exists>ev s'. step L deleteFunction entityType ev s = Some s'"
    if "run L deleteFunction entityType evs (initial entities) = Some s" "control s \<noteq> Done"
    for evs s
    using assms(2) that by (rule never_blocked)
  have bounded: "length evs \<le> 3 * length entities + 2"
    if "run L deleteFunction entityType evs (initial entities) = Some s" for evs s
    using that by (rule schedule_bounded)
  have returns: "\<exists>evs' r es. deleteEntitiesConcurrently L dateFilter entities deleteFunction
      entityType (evs @ evs') = Some (r, es)"
    if "run L deleteFunction entityType evs (initial entities) = Some s" for evs s
    using assms(2) that by (rule can_return)
  have own: "mset (successful r) =
        mset (own_successes deleteFunction entityType (zip [0..<length entities] entities))
      \<and> mset (failed r) =
        mset (own_failures deleteFunction entityType (zip [0..<length entities] entities))"
    if "deleteEntitiesConcurrently L dateFilter entities deleteFunction entityType schedule
          = Some (r, es)" for schedule r es
    using returned_results [OF assms(1) that] by simp
  have some: "\<exists>schedule r es.
      deleteEntitiesConcurrently L dateFilter entities deleteFunction entityType schedule
        = Some (r, es)"
    using returns [of "[]" "initial entities"] by auto
  have three: "mset (successful r) = {#success_of entityType (0, A), success_of entityType (2, C)#}
      \<and> mset (failed r) = {#failure_of entityType (1, B) err#}"
    if "entities = [A, B, C]" "\<forall>k. deleteFunction 0 k = Resolved ()"
      "\<forall>k. deleteFunction 1 k = Rejected err" "\<forall>k. deleteFunction 2 k = Resolved ()"
      "deleteEntitiesConcurrently L dateFilter entities deleteFunction entityType schedule
         = Some (r, es)" for schedule r es
    using own [OF that(5)] three_entities [OF that(2,3,4), of entityType A B C] that(1) by simp
  show ?thesis
    using free bounded returns own some three by blast
qed

theorem deletion_isolation_witness:
  "\<not> dryRun (filter_of (Single ''2005-12-17''))
   \<and> (0 :: int) < 40
   \<and> deleteEntitiesConcurrently 40 (filter_of (Single ''2005-12-17''))
        [org ''A'' None, org ''B'' None, org ''C'' None] second_fails Organization
        [MainRuns, MainRuns, MainRuns, MainRuns, TaskSettles 1, TaskSettles 2, TaskSettles 0,
         MainRuns]
      = Some (\<lparr>successful =
                 [\<lparr>outcome_id = ''C'', outcome_name = ''C'', outcome_createdAt = None\<rparr>,
                  \<lparr>outcome_id = ''A'', outcome_name = ''A'', outcome_createdAt = None\<rparr>],
               failed =
                 [\<lparr>outcome_id = ''B'', outcome_name = ''B'', outcome_createdAt = None,
                   error = ''Not Found''\<rparr>]\<rparr>,
              [(1, AcquireToken), (1, ApiCall), (2, AcquireToken), (2, ApiCall),
               (0, AcquireToken), (0, ApiCall)])
   \<and> mset [\<lparr>outcome_id = ''C'', outcome_name = ''C'', outcome_createdAt = None\<rparr>,
            \<lparr>outcome_id = ''A'', outcome_name = ''A'', outcome_createdAt = None\<rparr>]
      = {#success_of Organization (0, org ''A'' None), success_of Organization (2, org ''C'' None)#}
   \<and> mset [\<lparr>outcome_id = ''B'', outcome_name = ''B'', outcome_createdAt = None,
              error = ''Not Found''\<rparr>]
      = {#failure_of Organization (1, org ''B'' None) not_found#}"
proof -
  let ?entities = "[org ''A'' None, org ''B'' None, org ''C'' None]"
  have d: "\<not> dryRun (filter_of (Single ''2005-12-17''))"
    by (simp add: filter_of_def)
  have l: "(0 :: int) < 40"
    by simp
  have r: "deleteEntitiesConcurrently 40 (filter_of (Single ''2005-12-17''))
        ?entities second_fails Organization
        [MainRuns, MainRuns, MainRuns, MainRuns, TaskSettles 1, TaskSettles 2, TaskSettles 0,
         MainRuns]
      = Some (\<lparr>successful =
                 [\<lparr>outcome_id = ''C'', outcome_name = ''C'', outcome_createdAt = None\<rparr>,
                  \<lparr>outcome_id = ''A'', outcome_name = ''A'', outcome_createdAt = None\<rparr>],
               failed =
                 [\<lparr>outcome_id = ''B'', outcome_name = ''B'', outcome_createdAt = None,
                   error = ''Not Found''\<rparr>]\<rparr>,
              [(1, AcquireToken), (1, ApiCall), (2, AcquireToken), (2, ApiCall),
               (0, AcquireToken), (0, ApiCall)])"
    by (simp add: deleter_eval)
  have f: "?entities = [org ''A'' None, org ''B'' None, org ''C'' None] \<and>
      (\<forall>k. second_fails 0 k = Resolved ()) \<and> (\<forall>k. second_fails 1 k = Rejected not_found)
      \<and> (\<forall>k. second_fails 2 k = Resolved ())"
    by (simp add: second_fails_def)
  note three = deletion_isolation [where deleteFunction = second_fails
      and entityType = Organization and entities = ?entities and A = "org ''A'' None"
      and B = "org ''B'' None" and C = "org ''C'' None" and err = not_found, OF d l,
      THEN conjunct2, THEN conjunct2, THEN conjunct2, THEN conjunct2, rule_format, OF f,
      THEN conjunct2, rule_format, OF r]
  show ?thesis
    using d r three by simp
qed

text \<open>
  C4 (concurrency bound). With a non-negative limit, in every state a call can reach, under
  whatever schedule, at most \<open>CONCURRENCY_LIMIT\<close> tasks are started and not settled. The
  loop starts a task only while fewer are in flight; when it finds the limit reached it
  waits in \<open>Promise.race\<close>, where it cannot run, and the first task to settle leaves the
  queue and resumes it.
\<close>

theorem concurrency_bound:
  assumes "0 \<le> CONCURRENCY_LIMIT"
    and "run CONCURRENCY_LIMIT deleteFunction entityType schedule (initial entities) = Some s"
  shows "int (length (processingQueue s)) \<le> CONCURRENCY_LIMIT
    \<and> (\<forall>s'. step CONCURRENCY_LIMIT deleteFunction entityType MainRuns s = Some s' \<and>
              length (processingQueue s) < length (processingQueue s')
          \<longrightarrow> int (length (processingQueue s)) < CONCURRENCY_LIMIT)
    \<and> (control s = Loop \<and> remaining s \<noteq> [] \<and>
          CONCURRENCY_LIMIT \<le> int (length (processingQueue s))
          \<longrightarrow> step CONCURRENCY_LIMIT deleteFunction entityType MainRuns s
                = Some (s\<lparr>control := Waiting\<rparr>))
    \<and> (control s = Waiting
          \<longrightarrow> step CONCURRENCY_LIMIT deleteFunction entityType MainRuns s = None
            \<and> (\<forall>i s'. step CONCURRENCY_LIMIT deleteFunction entityType (TaskSettles i) s = Some s'
                  \<longrightarrow> control s' = Resumed
                    \<and> length (processingQueue s') < length (processingQueue s)))"
proof -
  have w: "within_limit CONCURRENCY_LIMIT s"
    using run_within_limit [OF initial_invariants(1) [OF assms(1)] assms(2)] .
  have a: "int (length (processingQueue s)) \<le> CONCURRENCY_LIMIT"
    using w by (simp add: within_limit_def)
  have b: "int (length (processingQueue s)) < CONCURRENCY_LIMIT"
    if "step CONCURRENCY_LIMIT deleteFunction entityType MainRuns s = Some s'"
      and "length (processingQueue s) < length (processingQueue s')" for s'
    using that w
    by (auto simp: within_limit_def split: control.splits list.splits if_splits)
  have c: "step CONCURRENCY_LIMIT deleteFunction entityType MainRuns s = Some (s\<lparr>control := Waiting\<rparr>)"
    if "control s = Loop" "remaining s \<noteq> []" "CONCURRENCY_LIMIT \<le> int (length (processingQueue s))"
    using that by (cases "remaining s") simp_all
  have d: "control s' = Resumed \<and> length (processingQueue s') < length (processingQueue s)"
    if "control s = Waiting"
      and "step CONCURRENCY_LIMIT deleteFunction entityType (TaskSettles i) s = Some s'" for i s'
  proof -
    from that(2) obtain t where t: "t \<in> set (processingQueue s)"
      and s': "s' = settle deleteFunction entityType t s"
      by (auto split: option.splits dest: find_in_queue)
    from t have "length (remove1 t (processingQueue s)) < length (processingQueue s)"
      by (simp add: length_remove1) (cases "processingQueue s"; simp)
    with that(1) show ?thesis by (simp add: s')
  qed
  have e: "step CONCURRENCY_LIMIT deleteFunction entityType MainRuns s = None"
    if "control s = Waiting"
    using that by simp
  show ?thesis
    using a b c d e by blast
qed

theorem concurrency_bound_witness:
  "(0::int) \<le> 2
   \<and> (\<exists>s. run 2 second_fails Organization [MainRuns, MainRuns, MainRuns]
             (initial [org ''A'' None, org ''B'' None, org ''C'' None]) = Some s
          \<and> length (processingQueue s) = 2 \<and> control s = Waiting
          \<and> int (length (processingQueue s)) \<le> 2
          \<and> step 2 second_fails Organization MainRuns s = None)"
proof -
  let ?s = "\<lparr>remaining = [(2, org ''C'' None)],
             processingQueue = [(0, org ''A'' None), (1, org ''B'' None)],
             successful_so_far = [], failed_so_far = [], control = Waiting, effects = []\<rparr>"
  have r: "run 2 second_fails Organization [MainRuns, MainRuns, MainRuns]
             (initial [org ''A'' None, org ''B'' None, org ''C'' None]) = Some ?s"
    by (simp add: deleter_eval)
  have l: "(0::int) \<le> 2" by simp
  show ?thesis
    using l r concurrency_bound [OF l r] by simp
qed

text \<open>
  C7 (dry-run purity). In dry-run mode the call returns at once, under whatever schedule:
  its tasks perform no effect at all (no token is acquired, no remote call is made),
  \<open>failed\<close> is empty, and \<open>successful\<close> holds one object for each input entity, in order,
  with the entity's \<open>id\<close> and \<open>createdAt\<close>.
\<close>

theorem dry_run_purity:
  assumes "dryRun dateFilter"
  shows "\<exists>r. deleteEntitiesConcurrently L dateFilter entities deleteFunction entityType schedule
              = Some (r, [])
          \<and> failed r = []
          \<and> length (successful r) = length entities
          \<and> map outcome_id (successful r) = map entity_id entities
          \<and> map outcome_createdAt (successful r) = map createdAt entities"
  using assms by (cases "entities = []") (simp_all add: deleteEntitiesConcurrently_def o_def)

theorem dry_run_purity_witness:
  "dryRun ((filter_of (Single ''2005-12-17'')) \<lparr>dryRun := True\<rparr>)
   \<and> deleteEntitiesConcurrently 40 ((filter_of (Single ''2005-12-17'')) \<lparr>dryRun := True\<rparr>)
        [org ''A'' None, org ''B'' None] second_fails Organization []
      = Some (\<lparr>successful =
                 [\<lparr>outcome_id = ''A'', outcome_name = ''A'', outcome_createdAt = None\<rparr>,
                  \<lparr>outcome_id = ''B'', outcome_name = ''B'', outcome_createdAt = None\<rparr>],
               failed = []\<rparr>, [])"
proof -
  have d: "dryRun ((filter_of (Single ''2005-12-17'')) \<lparr>dryRun := True\<rparr>)"
    by simp
  show ?thesis
    using d dry_run_purity [OF d, of 40 "[org ''A'' None, org ''B'' None]" second_fails
        Organization "[]"]
    by (simp add: deleter_eval)
qed

text \<open>
  C8 (outcome conservation). With a positive limit the call returns with one object for each
  entity. It returns: however far a call has come there are events that bring it to its
  \<open>return\<close>, no state short of the \<open>return\<close> is blocked, and no schedule is longer than
  three events for each entity and two more. And whenever it returns, in either mode, the
  \<open>id\<close>s of the objects in \<open>successful\<close> and \<open>failed\<close> together are the \<open>id\<close>s of the input
  entities, each as often as it occurs there; so the two lengths add up to the number of
  entities. For the empty list the call returns the two empty lists and no effect, under
  every schedule.
\<close>

theorem outcome_conservation:
  assumes "0 < L"
  shows "(\<forall>evs s. run L deleteFunction entityType evs (initial entities) = Some s
          \<longrightarrow> (\<exists>evs' r es. deleteEntitiesConcurrently L dateFilter entities deleteFunction
                              entityType (evs @ evs') = Some (r, es)))
    \<and> (\<forall>evs s. run L deleteFunction entityType evs (initial entities) = Some s \<and>
                control s \<noteq> Done
          \<longrightarrow> (\<exists>ev s'. step L deleteFunction entityType ev s = Some s'))
    \<and> (\<forall>evs s. run L deleteFunction entityType evs (initial entities) = Some s
          \<longrightarrow> length evs \<le> 3 * length entities + 2)
    \<and> (\<forall>schedule r es.
          deleteEntitiesConcurrently L dateFilter entities deleteFunction entityType schedule
            = Some (r, es)
          \<longrightarrow> image_mset outcome_id (mset (successful r)) +
                image_mset outcome_id (mset (failed r))
                = image_mset entity_id (mset entities)
            \<and> length (successful r) + length (failed r) = length entities)
    \<and> (\<forall>schedule. deleteEntitiesConcurrently L dateFilter [] deleteFunction entityType schedule
          = Some (\<lparr>successful = [], failed = []\<rparr>, []))"
proof -
  have returns: "\<exists>evs' r es. deleteEntitiesConcurrently L dateFilter entities deleteFunction
      entityType (evs @ evs') = Some (r, es)"
    if "run L deleteFunction entityType evs (initial entities) = Some s" for evs s
    using assms that by (rule can_return)
  have free: "\<exists>ev s'. step L deleteFunction entityType ev s = Some s'"
    if "run L deleteFunction entityType evs (initial entities) = Some s" "control s \<noteq> Done"
    for evs s
    using assms that by (rule never_blocked)
  have bounded: "length evs \<le> 3 * length entities + 2"
    if "run L deleteFunction entityType evs (initial entities) = Some s" for evs s
    using that by (rule schedule_bounded)
  have one_each: "image_mset outcome_id (mset (successful r)) +
        image_mset outcome_id (mset (failed r)) = image_mset entity_id (mset entities)
      \<and> length (successful r) + length (failed r) = length entities"
    if "deleteEntitiesConcurrently L dateFilter entities deleteFunction entityType schedule
          = Some (r, es)" for schedule r es
    using that by (rule returned_ids)
  have e: "deleteEntitiesConcurrently L dateFilter [] deleteFunction entityType schedule
        = Some (\<lparr>successful = [], failed = []\<rparr>, [])" for schedule
    by (simp add: deleteEntitiesConcurrently_def)
  show ?thesis
    using returns free bounded one_each e by blast
qed

theorem outcome_conservation_witness:
  "(0 :: int) < 40
   \<and> deleteEntitiesConcurrently 40 (filter_of (Single ''2005-12-17''))
        [org ''A'' None, org ''B'' None, org ''C'' None] second_fails Organization
        [MainRuns, MainRuns, MainRuns, MainRuns, TaskSettles 0, TaskSettles 1, TaskSettles 2,
         MainRuns]
      = Some (\<lparr>successful =
                 [\<lparr>outcome_id = ''A'', outcome_name = ''A'', outcome_createdAt = None\<rparr>,
                  \<lparr>outcome_id = ''C'', outcome_name = ''C'', outcome_createdAt = None\<rparr>],
               failed =
                 [\<lparr>outcome_id = ''B'', outcome_name = ''B'', outcome_createdAt = None,
                   error = ''Not Found''\<rparr>]\<rparr>,
              [(0, AcquireToken), (0, ApiCall), (1, AcquireToken), (1, ApiCall),
               (2, AcquireToken), (2, ApiCall)])
   \<and> length [\<lparr>outcome_id = ''A'', outcome_name = ''A'', outcome_createdAt = None\<rparr>,
              \<lparr>outcome_id = ''C'', outcome_name = ''C'', outcome_createdAt = None\<rparr>]
     + length [\<lparr>outcome_id = ''B'', outcome_name = ''B'', outcome_createdAt = None,
                 error = ''Not Found''\<rparr>]
     = length [org ''A'' None, org ''B'' None, org ''C'' None]"
proof -
  have l: "(0 :: int) < 40"
    by simp
  have r: "deleteEntitiesConcurrently 40 (filter_of (Single ''2005-12-17''))
        [org ''A'' None, org ''B'' None, org ''C'' None] second_fails Organization
        [MainRuns, MainRuns, MainRuns, MainRuns, TaskSettles 0, TaskSettles 1, TaskSettles 2,
         MainRuns]
      = Some (\<lparr>successful =
                 [\<lparr>outcome_id = ''A'', outcome_name = ''A'', outcome_createdAt = None\<rparr>,
                  \<lparr>outcome_id = ''C'', outcome_name = ''C'', outcome_createdAt = None\<rparr>],
               failed =
                 [\<lparr>outcome_id = ''B'', outcome_name = ''B'', outcome_createdAt = None,
                   error = ''Not Found''\<rparr>]\<rparr>,
              [(0, AcquireToken), (0, ApiCall), (1, AcquireToken), (1, ApiCall),
               (2, AcquireToken), (2, ApiCall)])"
    by (simp add: deleter_eval)
  note one_each = outcome_conservation [OF l, THEN conjunct2, THEN conjunct2, THEN conjunct2,
      THEN conjunct1, rule_format, OF r, THEN conjunct2]
  show ?thesis
    using r one_each by simp
qed

lemma task_name_precedence:
  "name e = None \<Longrightarrow> task_name User e = display_name e"
  "firstName e = None \<Longrightarrow> lastName e = None \<Longrightarrow> email e = None \<Longrightarrow>
   task_name Organization e = display_name e"
  by (auto simp: task_name_def display_name_def or_Unnamed_def truthy_def template_def
      split: option.splits)

text \<open>
  C9 (display name). In dry-run mode the object made for a user carries the user's email as
  \<open>name\<close> even when the user has a first and a last name, while the task that really deletes
  the same user (and the listing of \<open>filterByDate\<close>) names it by first and last name.
\<close>

theorem dry_run_user_name:
  "deleteEntitiesConcurrently 40 ((filter_of (Single ''2005-12-17'')) \<lparr>dryRun := True\<rparr>)
      [ada] (\<lambda>i k. Resolved ()) User []
     = Some (\<lparr>successful = [\<lparr>outcome_id = ''user_01'', outcome_name = ''ada@example.com'',
                               outcome_createdAt = None\<rparr>], failed = []\<rparr>, [])
   \<and> deleteEntitiesConcurrently 40 (filter_of (Single ''2005-12-17''))
      [ada] (\<lambda>i k. Resolved ()) User (one_by_one 1)
     = Some (\<lparr>successful = [\<lparr>outcome_id = ''user_01'', outcome_name = ''Ada Lovelace'',
                               outcome_createdAt = None\<rparr>], failed = []\<rparr>,
             [(0, AcquireToken), (0, ApiCall)])
   \<and> display_name ada = ''Ada Lovelace''"
  by (simp add: deleter_eval ada_def display_name_def)

section \<open>The exit status\<close>

lemma own_failures_empty_iff:
  "own_failures deleteFunction entityType ts = [] \<longleftrightarrow>
   list_all (\<lambda>t. task_error deleteFunction t = None) ts"
  by (induction ts) (auto simp: own_failures_def split: option.splits)

lemma failed_empty_iff:
  assumes "deleteEntitiesConcurrently L dateFilter selected deleteFunction entityType schedule
           = Some (r, es)"
  shows "(failed r = []) = all_deleted dateFilter deleteFunction selected"
proof (cases "dryRun dateFilter")
  case True
  with assms show ?thesis
    by (auto simp: deleteEntitiesConcurrently_def all_deleted_def split: if_splits)
next
  case False
  have "(failed r = []) = (mset (failed r) = {#})" by simp
  also have "\<dots> = (own_failures deleteFunction entityType (zip [0..<length selected] selected) = [])"
    unfolding returned_results(2) [OF False assms] by simp
  finally show ?thesis
    using False by (simp add: own_failures_empty_iff all_deleted_def)
qed

subsection \<open>A loop that waits on an empty queue\<close>

text \<open>
  In a state where the loop waits and no task is in flight, no event can happen. With a
  positive limit no call comes to such a state; with a limit that is not positive, the
  first step of the loop on a list that is not empty leads there.
\<close>

lemma nothing_pending_is_stuck:
  "control s = Waiting \<Longrightarrow> processingQueue s = [] \<Longrightarrow>
   step L deleteFunction entityType ev s = None"
  by (cases ev) simp_all

lemma positive_limit_pending:
  assumes "0 < L"
  shows "await_deletion L dateFilter entities deleteFunction entityType schedule \<noteq> NothingPending"
proof (cases "run L deleteFunction entityType schedule (initial entities)")
  case None
  then show ?thesis
    by (simp add: await_deletion_def split: option.splits)
next
  case (Some s)
  from reachable_waits_at_limit [OF Some] assms
  have "\<not> (control s = Waiting \<and> processingQueue s = [])"
    by (auto simp: waits_at_limit_def)
  with Some show ?thesis
    by (auto simp: await_deletion_def split: option.splits)
qed

lemma nonpositive_limit_never_returns:
  assumes "L \<le> 0" and "entities \<noteq> []" and "\<not> dryRun dateFilter"
  shows "deleteEntitiesConcurrently L dateFilter entities deleteFunction entityType schedule = None"
proof -
  have "length (zip [0..<length entities] entities) = length entities"
    by simp
  with assms(2) obtain t ts where z: "zip [0..<length entities] entities = t # ts"
    by (cases "zip [0..<length entities] entities") auto
  define s1 where "s1 = (initial entities)\<lparr>control := Waiting\<rparr>"
  have first: "step L deleteFunction entityType MainRuns (initial entities) = Some s1"
    using assms(1) by (simp add: initial_def z s1_def)
  have stuck: "step L deleteFunction entityType ev s1 = None" for ev
    by (rule nothing_pending_is_stuck) (simp_all add: s1_def initial_def)
  have "run L deleteFunction entityType schedule (initial entities) = None
      \<or> (\<exists>s. run L deleteFunction entityType schedule (initial entities) = Some s
            \<and> control s \<noteq> Done)"
  proof (cases schedule)
    case Nil
    then show ?thesis by (simp add: initial_def)
  next
    case (Cons ev evs)
    show ?thesis
    proof (cases ev)
      case MainRuns
      show ?thesis
      proof (cases evs)
        case Nil
        with Cons MainRuns first show ?thesis by (simp add: s1_def)
      next
        case c2: (Cons ev2 evs2)
        with Cons MainRuns first stuck [of ev2] show ?thesis by simp
      qed
    next
      case (TaskSettles i)
      with Cons show ?thesis by (simp add: initial_def)
    qed
  qed
  with assms(2,3) show ?thesis
    by (auto simp: deleteEntitiesConcurrently_def)
qed

lemma await_deletion_returns:
  "await_deletion L dateFilter entities deleteFunction entityType schedule = CallReturns r
   \<longleftrightarrow> (\<exists>es. deleteEntitiesConcurrently L dateFilter entities deleteFunction entityType schedule
              = Some (r, es))"
  by (auto simp: await_deletion_def split: option.splits)

lemma blocked_loop_exit:
  "script [''2005-12-17''] (demo_env\<lparr>concurrency_limit := - 1, organization_schedule := [MainRuns]\<rparr>)
     = Some 0"
proof -
  have p: "parseArguments [''2005-12-17''] = Inr (filter_of (Single ''2005-12-17''))"
    by (simp add: arguments_eval calendar_eval string_eval)
  have f: "fst (filterByDate (filter_of (Single ''2005-12-17''))
        [org ''A'' (Some (Number (utc 2005 12 17 23 59 59))),
         org ''B'' (Some (Number (utc 2005 12 18 0 0 0)))] Organization)
      = [org ''A'' (Some (Number (utc 2005 12 17 23 59 59)))]"
    by (simp add: filterByDate_def matchesDateFilter_def org_def filter_of_def
        calendar_eval string_eval)
  show ?thesis
    unfolding script_def p main_def demo_env_def
    by (simp add: f Let_def truthy_def) (simp add: await_deletion_def deleter_eval)
qed

lemma script_without_key:
  "\<not> truthy (api_key env) \<Longrightarrow> script argv env = Some 1"
  by (simp add: script_def)

subsection \<open>The status after valid arguments\<close>

lemma main_exit:
  assumes "0 < concurrency_limit env"
    and "main dateFilter env = Some code"
  shows "code = (if run_clean dateFilter env then 0 else 1)"
proof (cases "truthy (api_key env)")
  case False
  with assms(2) show ?thesis by (simp add: main_def run_clean_def)
next
  case key: True
  note np = positive_limit_pending [OF assms(1)]
  show ?thesis
  proof (cases "fetchAllOrganizations env")
    case (Inl err)
    with assms(2) key show ?thesis by (simp add: main_def run_clean_def)
  next
    case (Inr allOrganizations)
    let ?orgs = "fst (filterByDate dateFilter allOrganizations Organization)"
    from assms(2) key Inr np [of dateFilter ?orgs "deleteOrganization env" Organization
        "organization_schedule env"]
    obtain orgResults where
      a: "await_deletion (concurrency_limit env) dateFilter ?orgs
            (deleteOrganization env) Organization (organization_schedule env)
          = CallReturns orgResults"
      by (auto simp: main_def Let_def split: awaited.splits)
    then obtain oe where
      o: "deleteEntitiesConcurrently (concurrency_limit env) dateFilter ?orgs
            (deleteOrganization env) Organization (organization_schedule env)
          = Some (orgResults, oe)"
      by (auto simp: await_deletion_returns)
    note fo = failed_empty_iff [OF o]
    show ?thesis
    proof (cases "deleteUsers dateFilter")
      case False
      with assms(2) key Inr a fo show ?thesis
        by (auto simp: main_def run_clean_def Let_def)
    next
      case users: True
      show ?thesis
      proof (cases "fetchAllUsers env")
        case (Inl err)
        with assms(2) key Inr a users show ?thesis
          by (simp add: main_def run_clean_def Let_def)
      next
        case u: (Inr allUsers)
        let ?users = "fst (filterByDate dateFilter allUsers User)"
        from assms(2) key Inr a users u np [of dateFilter ?users "deleteUser env" User
            "user_schedule env"]
        obtain userResults where
          b: "await_deletion (concurrency_limit env) dateFilter ?users
                (deleteUser env) User (user_schedule env) = CallReturns userResults"
          by (auto simp: main_def Let_def split: awaited.splits)
        then obtain ue where
          d: "deleteEntitiesConcurrently (concurrency_limit env) dateFilter ?users
                (deleteUser env) User (user_schedule env) = Some (userResults, ue)"
          by (auto simp: await_deletion_returns)
        note fu = failed_empty_iff [OF d]
        from assms(2) key Inr a users u b fo fu show ?thesis
          by (auto simp: main_def run_clean_def Let_def)
      qed
    qed
  qed
qed

lemma main_returns:
  assumes "0 < concurrency_limit env"
  shows "\<exists>os us. main dateFilter (env\<lparr>organization_schedule := os, user_schedule := us\<rparr>) \<noteq> None"
proof (cases "fetchAllOrganizations env")
  case (Inl err)
  then show ?thesis by (simp add: main_def)
next
  case (Inr allOrganizations)
  let ?orgs = "fst (filterByDate dateFilter allOrganizations Organization)"
  let ?os = "one_by_one (length ?orgs)"
  obtain ro where o: "await_deletion (concurrency_limit env) dateFilter ?orgs
        (deleteOrganization env) Organization ?os = CallReturns ro"
    using one_by_one_returns [OF assms, of dateFilter ?orgs "deleteOrganization env" Organization]
    by (auto simp: await_deletion_returns)
  show ?thesis
  proof (cases "fetchAllUsers env")
    case (Inl err)
    with Inr o have "main dateFilter (env\<lparr>organization_schedule := ?os, user_schedule := []\<rparr>) \<noteq> None"
      by (simp add: main_def Let_def)
    then show ?thesis by blast
  next
    case u: (Inr allUsers)
    let ?users = "fst (filterByDate dateFilter allUsers User)"
    let ?us = "one_by_one (length ?users)"
    obtain ru where d: "await_deletion (concurrency_limit env) dateFilter ?users
        (deleteUser env) User ?us = CallReturns ru"
      using one_by_one_returns [OF assms, of dateFilter ?users "deleteUser env" User]
      by (auto simp: await_deletion_returns)
    from Inr o u d have "main dateFilter (env\<lparr>organization_schedule := ?os, user_schedule := ?us\<rparr>) \<noteq> None"
      by (simp add: main_def Let_def)
    then show ?thesis by blast
  qed
qed

lemma clean_run_exits:
  "script [''2005-12-17''] demo_env = Some 0
   \<and> run_clean (filter_of (Single ''2005-12-17'')) demo_env
   \<and> script [''2005-12-17''] (demo_env\<lparr>deleteOrganization := (\<lambda>i k. Rejected not_found)\<rparr>) = Some 1
   \<and> \<not> run_clean (filter_of (Single ''2005-12-17''))
         (demo_env\<lparr>deleteOrganization := (\<lambda>i k. Rejected not_found)\<rparr>)"
proof -
  have p: "parseArguments [''2005-12-17''] = Inr (filter_of (Single ''2005-12-17''))"
    by (simp add: arguments_eval calendar_eval string_eval)
  have f: "fst (filterByDate (filter_of (Single ''2005-12-17''))
        [org ''A'' (Some (Number (utc 2005 12 17 23 59 59))),
         org ''B'' (Some (Number (utc 2005 12 18 0 0 0)))] Organization)
      = [org ''A'' (Some (Number (utc 2005 12 17 23 59 59)))]"
    by (simp add: filterByDate_def matchesDateFilter_def org_def filter_of_def
        calendar_eval string_eval)
  have a: "script [''2005-12-17''] demo_env = Some 0"
    unfolding script_def p main_def demo_env_def
    by (simp add: f Let_def truthy_def) (simp add: await_deletion_def deleter_eval)
  have b: "script [''2005-12-17''] (demo_env\<lparr>deleteOrganization := (\<lambda>i k. Rejected not_found)\<rparr>)
      = Some 1"
    unfolding script_def p main_def demo_env_def
    by (simp add: f Let_def truthy_def) (simp add: await_deletion_def deleter_eval)
  have l: "0 < concurrency_limit demo_env"
    "0 < concurrency_limit (demo_env\<lparr>deleteOrganization := (\<lambda>i k. Rejected not_found)\<rparr>)"
    by (simp_all add: demo_env_def)
  have k: "truthy (api_key demo_env)"
    by (simp add: demo_env_def truthy_def)
  from a b k have "main (filter_of (Single ''2005-12-17'')) demo_env = Some 0"
    "main (filter_of (Single ''2005-12-17''))
       (demo_env\<lparr>deleteOrganization := (\<lambda>i k. Rejected not_found)\<rparr>) = Some 1"
    by (simp_all add: script_def p)
  from main_exit [OF l(1) this(1)] main_exit [OF l(2) this(2)] a b show ?thesis
    by (simp split: if_splits)
qed

text \<open>
  C6 (exit status). An argument that is not a date does not always end the script with
  status 1. \<open>2005-02-30\<close> has the form \<open>YYYY-MM-DD\<close> and is no day of the calendar, February
  2005 having 28 days; but \<open>new Date\<close> reads it as 2 March 2005, so the test
  \<open>isNaN(date.getTime())\<close> of \<open>validateDate\<close>, which is there to refuse a date that does not
  exist, lets it pass. The run then selects no entity (no day is written \<open>2005-02-30\<close>),
  deletes nothing, and ends with status 0. A month that does not exist is refused:
  \<open>2005-13-01\<close> ends the script with status 1.
\<close>

theorem exit_status_impossible_date:
  "\<not> calendar_date ''2005-02-30''
   \<and> validateDate ''2005-02-30'' = Inr (Number (utc 2005 3 2 0 0 0))
   \<and> parseArguments [''2005-02-30''] = Inr (filter_of (Single ''2005-02-30''))
   \<and> script [''2005-02-30''] demo_env = Some 0
   \<and> \<not> calendar_date ''2005-13-01''
   \<and> script [''2005-13-01''] demo_env = Some 1"
proof -
  have c: "\<not> calendar_date ''2005-02-30''" "\<not> calendar_date ''2005-13-01''"
    by (simp_all add: calendar_date_def days_in_month_def leap_year_def string_eval)
  have v: "validateDate ''2005-02-30'' = Inr (Number (utc 2005 3 2 0 0 0))"
    by (simp add: arguments_eval calendar_eval string_eval)
  have p: "parseArguments [''2005-02-30''] = Inr (filter_of (Single ''2005-02-30''))"
    by (simp add: arguments_eval calendar_eval string_eval)
  have q: "parseArguments [''2005-13-01''] = Inl 1"
    by (simp add: arguments_eval calendar_eval string_eval)
  have f: "fst (filterByDate (filter_of (Single ''2005-02-30''))
        [org ''A'' (Some (Number (utc 2005 12 17 23 59 59))),
         org ''B'' (Some (Number (utc 2005 12 18 0 0 0)))] Organization) = []"
    by (simp add: filterByDate_def matchesDateFilter_def org_def filter_of_def
        calendar_eval string_eval)
  have a: "script [''2005-02-30''] demo_env = Some 0"
    unfolding script_def p main_def demo_env_def
    by (simp add: f Let_def truthy_def) (simp add: await_deletion_def deleter_eval)
  have b: "script [''2005-13-01''] demo_env = Some 1"
    unfolding script_def q demo_env_def
    by (simp add: truthy_def)
  show ?thesis
    using c v p a b by simp
qed

end
